theory Spec2Isabelle
  imports Complex_Main
begin

section \<open>JavaScript values, objects and insertion-ordered maps\<close>

text \<open>
  Node records are open-ended JavaScript objects (\<open>[key: string]: unknown\<close>), so they
  are modelled as association lists from property names to values. A JavaScript
  \<open>Map\<close> and \<open>Set\<close> iterate in insertion order; both are lists here, and
  \<open>map_set\<close> keeps the position of a key that is already present, as
  \<open>Map.prototype.set\<close> does.
\<close>

datatype jsval =
    JUndefined
  | JNull
  | JBool bool
  | JNum real
  | JStr string
  | JArr "jsval list"
  | JObj "(string \<times> jsval) list"

type_synonym jsobj = "(string \<times> jsval) list"

datatype error =
    NodeMustHaveIdOrName   \<comment> \<open>\<open>throw new Error('Node must have an id or name')\<close>\<close>
  | IdNotAString           \<comment> \<open>an id outside the declared type \<open>id: string\<close>\<close>
  | TypeError              \<comment> \<open>a method call on \<open>undefined\<close> or on a value without that method\<close>

text \<open>Sequencing of calls that may throw: the first exception ends the run.\<close>

definition then_do :: "error + 'a \<Rightarrow> ('a \<Rightarrow> error + 'b) \<Rightarrow> error + 'b" where
  "then_do r f = (case r of Inl e \<Rightarrow> Inl e | Inr x \<Rightarrow> f x)"

fun map_set :: "'k \<Rightarrow> 'v \<Rightarrow> ('k \<times> 'v) list \<Rightarrow> ('k \<times> 'v) list" where
  "map_set k v [] = [(k, v)]"
| "map_set k v ((k', v') # m) = (if k' = k then (k, v) # m else (k', v') # map_set k v m)"

definition map_get :: "('k \<times> 'v) list \<Rightarrow> 'k \<Rightarrow> 'v option" where
  "map_get m k = map_of m k"

definition map_has :: "('k \<times> 'v) list \<Rightarrow> 'k \<Rightarrow> bool" where
  "map_has m k = (k \<in> set (map fst m))"

definition map_keys :: "('k \<times> 'v) list \<Rightarrow> 'k list" where
  "map_keys m = map fst m"

definition set_add :: "'a \<Rightarrow> 'a list \<Rightarrow> 'a list" where
  "set_add x s = (if x \<in> set s then s else s @ [x])"

text \<open>Property read \<open>o.k\<close>: a missing property reads as \<open>undefined\<close>.\<close>

definition get_prop :: "jsobj \<Rightarrow> string \<Rightarrow> jsval" where
  "get_prop ob k = (case map_get ob k of None \<Rightarrow> JUndefined | Some v \<Rightarrow> v)"

text \<open>Object spread \<open>{ ...base, ...extra }\<close>: later properties win, in place.\<close>

definition spread :: "jsobj \<Rightarrow> jsobj \<Rightarrow> jsobj" where
  "spread base extra = foldl (\<lambda>ob (k, v). map_set k v ob) base extra"

text \<open>\<open>a ?? b\<close> and \<open>!v\<close>.\<close>

definition coalesce :: "jsval \<Rightarrow> jsval \<Rightarrow> jsval" where
  "coalesce a b = (if a = JUndefined \<or> a = JNull then b else a)"

fun falsy :: "jsval \<Rightarrow> bool" where
  "falsy JUndefined = True"
| "falsy JNull = True"
| "falsy (JBool b) = (\<not> b)"
| "falsy (JNum x) = (x = 0)"
| "falsy (JStr s) = (s = [])"
| "falsy (JArr _) = False"
| "falsy (JObj _) = False"

text \<open>
  A JavaScript number is an IEEE 754 binary64 value; it is kept here as the real it
  denotes. An arithmetic operation returns the binary64 value nearest to the exact result,
  ties going to the even significand: \<open>double_round\<close>, for results in the normal range
  (overflow and subnormal results do not occur in what follows). \<open>binade\<close> finds the
  exponent \<open>e\<close> with \<open>2^e \<le> x < 2^(e+1)\<close>; its first argument bounds the search.
\<close>

fun binade :: "nat \<Rightarrow> real \<Rightarrow> int" where
  "binade 0 x = 0"
| "binade (Suc k) x =
     (if 2 \<le> x then binade k (x / 2) + 1
      else if x < 1 then binade k (x * 2) - 1
      else 0)"

definition pow2 :: "int \<Rightarrow> real" where
  "pow2 e = (if 0 \<le> e then 2 ^ nat e else 1 / 2 ^ nat (- e))"

definition round_even :: "real \<Rightarrow> int" where
  "round_even q =
     (let n = \<lfloor>q\<rfloor>; f = q - of_int n
      in if f < 1 / 2 then n else if 1 / 2 < f then n + 1 else if even n then n else n + 1)"

definition double_round :: "real \<Rightarrow> real" where
  "double_round x =
     (if x = 0 then 0
      else let a = \<bar>x\<bar>; ulp = pow2 (binade 1100 a - 52)
           in sgn x * (of_int (round_even (a / ulp)) * ulp))"

section \<open>GraphStore: \<open>class Graph\<close> of \<open>graph.ts\<close>\<close>

record Graph =
  adjacency :: "(string \<times> (string \<times> real) list) list"
  nodeData :: "(string \<times> jsobj) list"

definition new_Graph :: Graph where
  "new_Graph = \<lparr> adjacency = [], nodeData = [] \<rparr>"

text \<open>
  \<open>addNode\<close>: the id is \<open>node.id ?? node.name\<close>; a falsy id throws; an adjacency entry
  is created when the id has none; the stored record is set to \<open>{ id, ...node }\<close>.
\<close>

definition addNode :: "jsobj \<Rightarrow> Graph \<Rightarrow> error + Graph" where
  "addNode node g =
     (let idv = coalesce (get_prop node ''id'') (get_prop node ''name'') in
      if falsy idv then Inl NodeMustHaveIdOrName
      else case idv of
        JStr i \<Rightarrow>
          Inr \<lparr> adjacency =
                  (if \<not> map_has (adjacency g) i then map_set i [] (adjacency g)
                   else adjacency g),
                nodeData = map_set i (spread [(''id'', JStr i)] node) (nodeData g) \<rparr>
      | _ \<Rightarrow> Inl IdNotAString)"

definition stub :: "string \<Rightarrow> jsobj" where
  "stub a = [(''id'', JStr a), (''name'', JStr a)]"

text \<open>\<open>this.adjacency.get(a)!.set(b, weight)\<close>; the \<open>!\<close> is unchecked at run time.\<close>

definition adj_set :: "string \<Rightarrow> string \<Rightarrow> real \<Rightarrow> Graph \<Rightarrow> error + Graph" where
  "adj_set a b w g =
     (case map_get (adjacency g) a of
        None \<Rightarrow> Inl TypeError
      | Some m \<Rightarrow> Inr (g\<lparr> adjacency := map_set a (map_set b w m) (adjacency g) \<rparr>))"

definition ensure_node :: "string \<Rightarrow> Graph \<Rightarrow> error + Graph" where
  "ensure_node a g = (if \<not> map_has (adjacency g) a then addNode (stub a) g else Inr g)"

text \<open>\<open>addEdge(a, b, weight, _meta)\<close>; the metadata argument is not stored.\<close>

definition addEdge :: "string \<Rightarrow> string \<Rightarrow> real \<Rightarrow> jsobj \<Rightarrow> Graph \<Rightarrow> error + Graph" where
  "addEdge a b weight meta g =
     then_do (ensure_node a g) (\<lambda>g1.
     then_do (ensure_node b g1) (\<lambda>g2.
     then_do (adj_set a b weight g2) (\<lambda>g3.
     adj_set b a weight g3)))"

definition neighbors :: "Graph \<Rightarrow> string \<Rightarrow> string list" where
  "neighbors g i = (case map_get (adjacency g) i of None \<Rightarrow> [] | Some m \<Rightarrow> map_keys m)"

definition degree :: "Graph \<Rightarrow> string \<Rightarrow> nat" where
  "degree g i = (case map_get (adjacency g) i of None \<Rightarrow> 0 | Some m \<Rightarrow> length m)"

definition nodes :: "Graph \<Rightarrow> string list" where
  "nodes g = map_keys (adjacency g)"

text \<open>
  \<open>edges()\<close>: string comparison \<open>a < b\<close> is lexicographic on code units, a proper prefix
  being smaller; the key of a pair is the template string \<open>`${a}|${b}`\<close> of the smaller
  id first.
\<close>

fun str_less :: "string \<Rightarrow> string \<Rightarrow> bool" where
  "str_less [] [] = False"
| "str_less [] (y # ys) = True"
| "str_less (x # xs) [] = False"
| "str_less (x # xs) (y # ys) =
     ((of_char x :: nat) < of_char y \<or> (x = y \<and> str_less xs ys))"

definition edge_key :: "string \<Rightarrow> string \<Rightarrow> string" where
  "edge_key a b = (if str_less a b then a @ ''|'' @ b else b @ ''|'' @ a)"

definition edges_step :: "string \<Rightarrow> string list \<times> (string \<times> string) list \<Rightarrow> string
    \<Rightarrow> string list \<times> (string \<times> string) list" where
  "edges_step a acc b =
     (case acc of (seen, all) \<Rightarrow>
        if edge_key a b \<in> set seen then (seen, all)
        else (set_add (edge_key a b) seen, all @ [(a, b)]))"

definition edges_row :: "string list \<times> (string \<times> string) list \<Rightarrow> string \<times> (string \<times> real) list
    \<Rightarrow> string list \<times> (string \<times> string) list" where
  "edges_row acc entry = (case entry of (a, nbrs) \<Rightarrow> foldl (edges_step a) acc (map_keys nbrs))"

definition edges :: "Graph \<Rightarrow> (string \<times> string) list" where
  "edges g = snd (foldl edges_row ([], []) (adjacency g))"

section \<open>Algorithms\<close>

subsection \<open>\<open>shortestPath\<close>: breadth-first search with a parent map\<close>

record bfs =
  queue :: "string list"
  visited :: "string list"
  parent :: "(string \<times> string) list"

text \<open>
  The \<open>for (const nbr of this.neighbors(current))\<close> loop. \<open>Inl\<close> is the early
  \<open>return\<close> taken when the target is discovered, carrying the parent map handed to
  \<open>reconstructPath\<close>; \<open>Inr\<close> is the state after the whole list.
\<close>

fun visit_nbrs :: "string \<Rightarrow> string \<Rightarrow> string list \<Rightarrow> bfs \<Rightarrow> (string \<times> string) list + bfs" where
  "visit_nbrs target current [] st = Inr st"
| "visit_nbrs target current (nbr # rest) st =
     (if nbr \<in> set (visited st) then visit_nbrs target current rest st
      else
        let st' = st\<lparr> visited := set_add nbr (visited st),
                      parent := map_set nbr current (parent st) \<rparr>
        in if nbr = target then Inl (parent st')
           else visit_nbrs target current rest (st'\<lparr> queue := queue st' @ [nbr] \<rparr>))"

text \<open>
  \<open>reconstructPath\<close>: the \<open>while (cur !== source)\<close> loop follows parent entries and
  need not end on an arbitrary map, so the outer \<open>option\<close> is \<open>None\<close> when it does
  not return. The inner \<open>option\<close> is the JavaScript result: \<open>None\<close> for \<open>null\<close>.
\<close>

partial_function (option) walk_back ::
    "(string \<times> string) list \<Rightarrow> string \<Rightarrow> string \<Rightarrow> string list \<Rightarrow> string list option option" where
  "walk_back par source cur path =
     (if cur = source then Some (Some (rev path))
      else case map_get par cur of
             None \<Rightarrow> Some None
           | Some p \<Rightarrow> walk_back par source p (path @ [p]))"

declare walk_back.simps [code]

definition reconstructPath ::
    "(string \<times> string) list \<Rightarrow> string \<Rightarrow> string \<Rightarrow> string list option option" where
  "reconstructPath par source target = walk_back par source target [target]"

text \<open>Every id that occurs as a key of some adjacency entry's inner map.\<close>

definition nbr_ids :: "Graph \<Rightarrow> string set" where
  "nbr_ids g = set (concat (map (\<lambda>e. map_keys (snd e)) (adjacency g)))"

definition bfs_measure :: "Graph \<Rightarrow> bfs \<Rightarrow> nat" where
  "bfs_measure g st = 2 * card (nbr_ids g - set (visited st)) + length (queue st)"

lemma neighbors_subset_nbr_ids: "set (neighbors g c) \<subseteq> nbr_ids g"
proof (cases "map_get (adjacency g) c")
  case None
  then show ?thesis by (simp add: neighbors_def)
next
  case (Some m)
  then have "(c, m) \<in> set (adjacency g)"
    by (simp add: map_get_def map_of_SomeD)
  then show ?thesis
    using Some by (force simp: neighbors_def nbr_ids_def)
qed

lemma finite_nbr_ids: "finite (nbr_ids g)"
  by (simp add: nbr_ids_def)

lemma card_unvisited_add:
  assumes "nbr \<in> nbr_ids g" "nbr \<notin> set vs"
  shows "card (nbr_ids g - set (set_add nbr vs)) < card (nbr_ids g - set vs)"
proof -
  have "nbr_ids g - set (set_add nbr vs) = (nbr_ids g - set vs) - {nbr}"
    using assms by (auto simp: set_add_def)
  moreover have "nbr \<in> nbr_ids g - set vs"
    using assms by simp
  moreover have "finite (nbr_ids g - set vs)"
    using finite_nbr_ids [of g] by simp
  ultimately show ?thesis
    using card_Diff1_less [of "nbr_ids g - set vs" nbr] by simp
qed

lemma visit_nbrs_measure:
  "set ns \<subseteq> nbr_ids g \<Longrightarrow> visit_nbrs target current ns st = Inr st'
     \<Longrightarrow> bfs_measure g st' \<le> bfs_measure g st"
proof (induction ns arbitrary: st)
  case Nil
  then show ?case by simp
next
  case (Cons nbr rest)
  show ?case
  proof (cases "nbr \<in> set (visited st)")
    case True
    then show ?thesis using Cons by simp
  next
    case False
    let ?st2 = "st\<lparr> visited := set_add nbr (visited st),
                    parent := map_set nbr current (parent st),
                    queue := queue st @ [nbr] \<rparr>"
    from False Cons.prems have neq: "nbr \<noteq> target" and
      run: "visit_nbrs target current rest ?st2 = Inr st'"
      by (auto simp: Let_def split: if_splits)
    have "bfs_measure g st' \<le> bfs_measure g ?st2"
      using Cons.IH [OF _ run] Cons.prems(1) by simp
    moreover have "bfs_measure g ?st2 \<le> bfs_measure g st"
      using card_unvisited_add [of nbr g "visited st"] False Cons.prems(1)
      by (simp add: bfs_measure_def)
    ultimately show ?thesis by simp
  qed
qed

function bfs_loop :: "Graph \<Rightarrow> string \<Rightarrow> string \<Rightarrow> bfs \<Rightarrow> string list option option" where
  "bfs_loop g source target st =
     (case queue st of
        [] \<Rightarrow> Some None
      | current # rest \<Rightarrow>
          (case visit_nbrs target current (neighbors g current) (st\<lparr> queue := rest \<rparr>) of
             Inl par \<Rightarrow> reconstructPath par source target
           | Inr st' \<Rightarrow> bfs_loop g source target st'))"
  by pat_completeness auto
termination
proof (relation "measure (\<lambda>(g, source, target, st). bfs_measure g st)", goal_cases)
  case 1
  then show ?case by simp
next
  case (2 g source target st current rest st')
  have "bfs_measure g st' \<le> bfs_measure g (st\<lparr> queue := rest \<rparr>)"
    using visit_nbrs_measure [OF neighbors_subset_nbr_ids] 2(2) by blast
  also have "\<dots> < bfs_measure g st"
    using 2(1) by (simp add: bfs_measure_def)
  finally show ?case by simp
qed

declare bfs_loop.simps [simp del]

lemma bfs_loop_empty: "queue st = [] \<Longrightarrow> bfs_loop g source target st = Some None"
  by (subst bfs_loop.simps) simp

lemma bfs_loop_step:
  "queue st = current # rest \<Longrightarrow>
     bfs_loop g source target st =
       (case visit_nbrs target current (neighbors g current) (st\<lparr> queue := rest \<rparr>) of
          Inl par \<Rightarrow> reconstructPath par source target
        | Inr st' \<Rightarrow> bfs_loop g source target st')"
  by (subst bfs_loop.simps) simp

definition shortestPath :: "Graph \<Rightarrow> string \<Rightarrow> string \<Rightarrow> string list option option" where
  "shortestPath g source target =
     (if \<not> map_has (adjacency g) source \<or> \<not> map_has (adjacency g) target then Some None
      else if source = target then Some (Some [source])
      else bfs_loop g source target \<lparr> queue = [source], visited = [source], parent = [] \<rparr>)"

subsection \<open>\<open>degreeCentrality\<close>\<close>

text \<open>
  \<open>N\<close>, \<open>N - 1\<close> and the degrees are integers far below \<open>2^53\<close> and so exact; the
  quotient \<open>1 / (N - 1)\<close> and the product \<open>degree * scale\<close> are each rounded.
\<close>

definition centrality_scale :: "bool \<Rightarrow> Graph \<Rightarrow> real" where
  "centrality_scale normalized g =
     (let N = length (adjacency g)
      in if normalized \<and> N > 1 then double_round (1 / (real N - 1)) else 1)"

definition degreeCentrality :: "bool \<Rightarrow> Graph \<Rightarrow> (string \<times> real) list" where
  "degreeCentrality normalized g =
     foldl (\<lambda>result i.
              map_set i (double_round (real (degree g i) * centrality_scale normalized g)) result)
       [] (nodes g)"

subsection \<open>\<open>connectedComponents\<close>: depth-first search with an explicit stack\<close>

text \<open>
  The stack is kept top first: \<open>stack.pop()\<close> takes the head and \<open>stack.push(nbr)\<close>
  conses. \<open>push_unvisited\<close> is the body of the loop over the popped node's neighbours.
\<close>

fun push_unvisited :: "string list \<times> string list \<Rightarrow> string \<Rightarrow> string list \<times> string list" where
  "push_unvisited (vis, stack) nbr =
     (if nbr \<notin> set vis then (set_add nbr vis, nbr # stack) else (vis, stack))"

definition dfs_measure :: "Graph \<Rightarrow> string list \<Rightarrow> string list \<Rightarrow> nat" where
  "dfs_measure g stack vis = 2 * card (nbr_ids g - set vis) + length stack"

lemma push_unvisited_measure:
  "set ns \<subseteq> nbr_ids g \<Longrightarrow> foldl push_unvisited (vis, stack) ns = (vis', stack')
     \<Longrightarrow> dfs_measure g stack' vis' \<le> dfs_measure g stack vis"
proof (induction ns arbitrary: vis stack)
  case Nil
  then show ?case by simp
next
  case (Cons nbr rest)
  show ?case
  proof (cases "nbr \<in> set vis")
    case True
    then show ?thesis using Cons by simp
  next
    case False
    then have run: "foldl push_unvisited (set_add nbr vis, nbr # stack) rest = (vis', stack')"
      using Cons.prems(2) by simp
    have "dfs_measure g stack' vis' \<le> dfs_measure g (nbr # stack) (set_add nbr vis)"
      using Cons.IH [OF _ run] Cons.prems(1) by simp
    moreover have "dfs_measure g (nbr # stack) (set_add nbr vis) \<le> dfs_measure g stack vis"
      using card_unvisited_add [of nbr g vis] False Cons.prems(1)
      by (simp add: dfs_measure_def)
    ultimately show ?thesis by simp
  qed
qed

function dfs_loop :: "Graph \<Rightarrow> string list \<Rightarrow> string list \<Rightarrow> string list
    \<Rightarrow> string list \<times> string list" where
  "dfs_loop g stack vis cmp =
     (case stack of
        [] \<Rightarrow> (vis, cmp)
      | node # rest \<Rightarrow>
          (case foldl push_unvisited (vis, rest) (neighbors g node) of
             (vis', stack') \<Rightarrow> dfs_loop g stack' vis' (cmp @ [node])))"
  by pat_completeness auto
termination
proof (relation "measure (\<lambda>(g, stack, vis, cmp). dfs_measure g stack vis)", goal_cases)
  case 1
  then show ?case by simp
next
  case (2 g stack vis cmp node rest vis' stack')
  have "dfs_measure g stack' vis' \<le> dfs_measure g rest vis"
    using push_unvisited_measure [OF neighbors_subset_nbr_ids] 2(2) by metis
  also have "\<dots> < dfs_measure g stack vis"
    using 2(1) by (simp add: dfs_measure_def)
  finally show ?case by simp
qed

declare dfs_loop.simps [simp del]

lemma dfs_loop_Nil: "dfs_loop g [] vis cmp = (vis, cmp)"
  by (subst dfs_loop.simps) simp

lemma dfs_loop_Cons:
  "dfs_loop g (node # rest) vis cmp =
     (case foldl push_unvisited (vis, rest) (neighbors g node) of
        (vis', stack') \<Rightarrow> dfs_loop g stack' vis' (cmp @ [node]))"
  by (subst dfs_loop.simps) simp

fun cc_loop :: "Graph \<Rightarrow> string list \<Rightarrow> string list \<Rightarrow> string list list \<Rightarrow> string list list" where
  "cc_loop g [] vis components = components"
| "cc_loop g (start # rest) vis components =
     (if start \<in> set vis then cc_loop g rest vis components
      else case dfs_loop g [start] (set_add start vis) [] of
             (vis', cmp) \<Rightarrow> cc_loop g rest vis' (components @ [cmp]))"

definition connectedComponents :: "Graph \<Rightarrow> string list list" where
  "connectedComponents g = cc_loop g (nodes g) [] []"

subsection \<open>\<open>assignCommunities\<close>\<close>

text \<open>Decimal rendering of the index in the template string \<open>`C${idx + 1}`\<close>.\<close>

definition digit_char :: "nat \<Rightarrow> char" where
  "digit_char d = ''0123456789'' ! d"

fun show_nat :: "nat \<Rightarrow> string" where
  "show_nat n =
     (if n < 10 then [digit_char n]
      else show_nat (n div 10) @ [digit_char (n mod 10)])"

definition assign_comp :: "string \<Rightarrow> (string \<times> jsobj) list \<Rightarrow> string list \<Rightarrow> (string \<times> jsobj) list" where
  "assign_comp communityId nd cmp =
     foldl (\<lambda>nd i.
        let data = (case map_get nd i of None \<Rightarrow> stub i | Some d \<Rightarrow> d)
        in map_set i (spread data [(''communityId'', JStr communityId)]) nd) nd cmp"

definition assignCommunities :: "Graph \<Rightarrow> Graph \<times> string list list" where
  "assignCommunities g =
     (let components = connectedComponents g
      in (g\<lparr> nodeData :=
              foldl (\<lambda>nd (cmp, idx). assign_comp (''C'' @ show_nat (idx + 1)) nd cmp)
                (nodeData g) (zip components [0 ..< length components]) \<rparr>,
          components))"

section \<open>GraphBuilder: \<open>addSongCreditsToGraph\<close>\<close>

record Credits =
  writers :: "string list option"
  producers :: "string list option"
  performers :: "string list option"

record SongCredit =
  song_id :: string
  title :: string
  artistIds :: "string list"
  year :: "real option"
  credits :: Credits

definition js_strings :: "string list \<Rightarrow> jsval" where
  "js_strings xs = JArr (map JStr xs)"

definition js_credits :: "Credits \<Rightarrow> jsval" where
  "js_credits c =
     JObj (concat
       [case writers c of None \<Rightarrow> [] | Some xs \<Rightarrow> [(''writers'', js_strings xs)],
        case producers c of None \<Rightarrow> [] | Some xs \<Rightarrow> [(''producers'', js_strings xs)],
        case performers c of None \<Rightarrow> [] | Some xs \<Rightarrow> [(''performers'', js_strings xs)]])"

definition song_node :: "SongCredit \<Rightarrow> jsobj" where
  "song_node song =
     [(''id'', JStr (song_id song)),
      (''name'', JStr (title song)),
      (''nodeType'', JStr ''song''),
      (''year'', (case year song of None \<Rightarrow> JUndefined | Some y \<Rightarrow> JNum y)),
      (''credits'', js_credits (credits song))]"

text \<open>The four loops that fill the set \<open>allCreditedArtists\<close>; an absent list is skipped.\<close>

definition add_all :: "string list option \<Rightarrow> string list \<Rightarrow> string list" where
  "add_all xs s = (case xs of None \<Rightarrow> s | Some ys \<Rightarrow> foldl (\<lambda>s x. set_add x s) s ys)"

definition allCreditedArtists :: "SongCredit \<Rightarrow> string list" where
  "allCreditedArtists song =
     add_all (performers (credits song))
       (add_all (producers (credits song))
         (add_all (writers (credits song))
           (add_all (Some (artistIds song)) [])))"

text \<open>\<open>xs?.includes(x)\<close>: \<open>undefined\<close>, hence falsy, on an absent list.\<close>

definition opt_includes :: "string list option \<Rightarrow> string \<Rightarrow> bool" where
  "opt_includes xs x = (case xs of None \<Rightarrow> False | Some ys \<Rightarrow> x \<in> set ys)"

definition relation :: "SongCredit \<Rightarrow> string \<Rightarrow> string" where
  "relation song artistId =
     (if artistId \<in> set (artistIds song) then ''performs''
      else if opt_includes (writers (credits song)) artistId then ''writes''
      else if opt_includes (producers (credits song)) artistId then ''produces''
      else if opt_includes (performers (credits song)) artistId then ''performs''
      else ''credited'')"

text \<open>The metadata object \<open>{ relation, songId: song.id, artistId }\<close> passed to \<open>addEdge\<close>.\<close>

definition edge_meta :: "SongCredit \<Rightarrow> string \<Rightarrow> jsobj" where
  "edge_meta song artistId =
     [(''relation'', JStr (relation song artistId)),
      (''songId'', JStr (song_id song)),
      (''artistId'', JStr artistId)]"

definition artist_node :: "string \<Rightarrow> jsobj" where
  "artist_node artistId =
     [(''id'', JStr artistId), (''name'', JStr artistId), (''nodeType'', JStr ''artist'')]"

text \<open>
  \<open>addEdge\<close> does not read its metadata argument, so the graph alone does not tell what
  ingestion passes there. The ingestion functions therefore carry, beside the graph, the
  list of the \<open>addEdge\<close> calls made so far, in order: \<open>(a, b, weight, meta)\<close> for each.
\<close>

type_synonym edge_call = "string \<times> string \<times> real \<times> jsobj"

text \<open>The body of the loop \<open>for (const artistId of allCreditedArtists)\<close>.\<close>

definition credit_artist :: "SongCredit \<Rightarrow> Graph \<times> edge_call list \<Rightarrow> string
    \<Rightarrow> error + Graph \<times> edge_call list" where
  "credit_artist song st artistId =
     (case st of (g, calls) \<Rightarrow>
        then_do (if \<not> map_has (nodeData g) artistId then addNode (artist_node artistId) g
                 else Inr g)
          (\<lambda>g1. then_do (addEdge (song_id song) artistId 1 (edge_meta song artistId) g1)
             (\<lambda>g2. Inr (g2, calls @ [(song_id song, artistId, 1, edge_meta song artistId)]))))"

fun for_each :: "('s \<Rightarrow> 'a \<Rightarrow> error + 's) \<Rightarrow> 's \<Rightarrow> 'a list \<Rightarrow> error + 's" where
  "for_each body s [] = Inr s"
| "for_each body s (x # xs) = then_do (body s x) (\<lambda>s'. for_each body s' xs)"

text \<open>The body of the loop \<open>for (const song of songCredits.songs)\<close>.\<close>

definition add_song :: "Graph \<times> edge_call list \<Rightarrow> SongCredit \<Rightarrow> error + Graph \<times> edge_call list" where
  "add_song st song =
     (case st of (g, calls) \<Rightarrow>
        then_do (addNode (song_node song) g)
          (\<lambda>g1. for_each (credit_artist song) (g1, calls) (allCreditedArtists song)))"

definition addSongCreditsToGraph :: "Graph \<Rightarrow> SongCredit list
    \<Rightarrow> error + Graph \<times> edge_call list" where
  "addSongCreditsToGraph g songs =
     then_do (for_each add_song (g, []) songs)
       (\<lambda>st. case st of (g', calls) \<Rightarrow> Inr (fst (assignCommunities g'), calls))"

section \<open>QueryService: the \<open>search\<close> resolver\<close>

text \<open>
  A string is the list of its UTF-16 code units, and a \<open>char\<close> is a code unit below 256
  (Basic Latin and Latin-1). \<open>toLowerCase\<close> maps the upper-case letters A-Z (65-90) and
  the Latin-1 upper-case letters (192-222 without the multiplication sign 215) to the code
  unit 32 above and leaves every other unit as it is. \<open>toUpperCase\<close> maps a-z and the
  Latin-1 lower-case letters (224-254 without the division sign 247) to the unit 32 below
  and the sharp s (223) to SS; the micro sign (181) and y with diaeresis (255), whose
  upper-case forms are not below 256, are left as they are.
\<close>

definition char_lower :: "char \<Rightarrow> char" where
  "char_lower c =
     (let n = (of_char c :: nat)
      in if (65 \<le> n \<and> n \<le> 90) \<or> (192 \<le> n \<and> n \<le> 222 \<and> n \<noteq> 215) then char_of (n + 32)
         else c)"

definition char_upper :: "char \<Rightarrow> string" where
  "char_upper c =
     (let n = (of_char c :: nat)
      in if (97 \<le> n \<and> n \<le> 122) \<or> (224 \<le> n \<and> n \<le> 254 \<and> n \<noteq> 247) then [char_of (n - 32)]
         else if n = 223 then ''SS''
         else [c])"

definition toLowerCase :: "string \<Rightarrow> string" where
  "toLowerCase s = map char_lower s"

definition toUpperCase :: "string \<Rightarrow> string" where
  "toUpperCase s = concat (map char_upper s)"

text \<open>\<open>hay.includes(needle)\<close>: \<open>needle\<close> occurs in \<open>hay\<close> as a contiguous run.\<close>

fun starts_with :: "string \<Rightarrow> string \<Rightarrow> bool" where
  "starts_with hay [] = True"
| "starts_with [] (n # ns) = False"
| "starts_with (h # hs) (n # ns) = (h = n \<and> starts_with hs ns)"

fun str_includes :: "string \<Rightarrow> string \<Rightarrow> bool" where
  "str_includes [] needle = starts_with [] needle"
| "str_includes (h # hs) needle = (starts_with (h # hs) needle \<or> str_includes hs needle)"

record NodeObject =
  no_id :: string
  no_name :: jsval
  nodeType :: string
  communityId :: jsval
  no_degree :: nat
  centrality :: real
  no_year :: jsval
  no_credits :: jsval
  songIds :: jsval

definition toNodeTypeEnum :: "jsval \<Rightarrow> error + string" where
  "toNodeTypeEnum v =
     (if falsy v then Inr ''ARTIST''
      else case v of JStr s \<Rightarrow> Inr (toUpperCase s) | _ \<Rightarrow> Inl TypeError)"

definition node_record :: "Graph \<Rightarrow> string \<Rightarrow> jsobj" where
  "node_record g i = (case map_get (nodeData g) i of None \<Rightarrow> stub i | Some d \<Rightarrow> d)"

definition createNodeObject :: "string \<Rightarrow> Graph \<Rightarrow> (string \<times> real) list \<Rightarrow> error + NodeObject" where
  "createNodeObject i g cent =
     (let data = node_record g i in
      then_do (toNodeTypeEnum (get_prop data ''nodeType''))
        (\<lambda>nt. Inr \<lparr> no_id = i,
                    no_name = coalesce (get_prop data ''name'') (JStr i),
                    nodeType = nt,
                    communityId = get_prop data ''communityId'',
                    no_degree = degree g i,
                    centrality = (case map_get cent i of None \<Rightarrow> 0 | Some c \<Rightarrow> c),
                    no_year = get_prop data ''year'',
                    no_credits = get_prop data ''credits'',
                    songIds = get_prop data ''songIds'' \<rparr>))"

text \<open>
  The callback of \<open>graph.nodes().map(...)\<close> in \<open>search\<close>: \<open>None\<close> is the \<open>null\<close> that
  \<open>filter(Boolean)\<close> drops. Calling \<open>toLowerCase\<close> on a name that is not a string throws.
\<close>

definition search_match :: "Graph \<Rightarrow> (string \<times> real) list \<Rightarrow> string \<Rightarrow> string
    \<Rightarrow> error + NodeObject option" where
  "search_match g cent q i =
     (case coalesce (get_prop (node_record g i) ''name'') (JStr i) of
        JStr nm \<Rightarrow>
          if \<not> str_includes (toLowerCase nm) q then Inr None
          else then_do (createNodeObject i g cent) (\<lambda>n. Inr (Some n))
      | _ \<Rightarrow> Inl TypeError)"

fun map_throwing :: "('a \<Rightarrow> error + 'b) \<Rightarrow> 'a list \<Rightarrow> error + 'b list" where
  "map_throwing f [] = Inr []"
| "map_throwing f (x # xs) =
     then_do (f x) (\<lambda>y. then_do (map_throwing f xs) (\<lambda>ys. Inr (y # ys)))"

definition filterByNodeType :: "NodeObject list \<Rightarrow> string list option \<Rightarrow> NodeObject list" where
  "filterByNodeType ns nodeTypes =
     (case nodeTypes of
        None \<Rightarrow> ns
      | Some ts \<Rightarrow> if length ts = 0 then ns else filter (\<lambda>n. nodeType n \<in> set ts) ns)"

record SearchResult =
  sr_nodes :: "NodeObject list"
  sr_count :: nat

definition search :: "string \<Rightarrow> string list option \<Rightarrow> int option \<Rightarrow> Graph \<Rightarrow> error + SearchResult" where
  "search query nodeTypes limit g =
     (let q = toLowerCase query;
          cent = degreeCentrality True g
      in then_do (map_throwing (search_match g cent q) (nodes g))
           (\<lambda>found.
              let results = concat (map (\<lambda>r. case r of None \<Rightarrow> [] | Some n \<Rightarrow> [n]) found);
                  results = (case nodeTypes of
                               None \<Rightarrow> results
                             | Some ts \<Rightarrow> if length ts > 0 then filterByNodeType results nodeTypes
                                          else results);
                  results = (case limit of
                               None \<Rightarrow> results
                             | Some l \<Rightarrow> if l \<noteq> 0 \<and> l > 0 then take (nat l) results
                                         else results)
              in Inr \<lparr> sr_nodes = results, sr_count = length results \<rparr>))"

text \<open>
  The \<open>shortestPath\<close> resolver: \<open>null\<close> when there is no path, otherwise the node
  objects of the path and its hop count \<open>path.length - 1\<close>.
\<close>

record PathResult =
  pr_nodes :: "NodeObject list"
  pr_length :: int

definition shortestPath_query :: "string \<Rightarrow> string \<Rightarrow> Graph \<Rightarrow> (error + PathResult option) option" where
  "shortestPath_query a b g =
     (case shortestPath g a b of
        None \<Rightarrow> None
      | Some None \<Rightarrow> Some (Inr None)
      | Some (Some path) \<Rightarrow>
          Some (then_do (map_throwing (\<lambda>i. createNodeObject i g (degreeCentrality True g)) path)
                  (\<lambda>ns. Inr (Some \<lparr> pr_nodes = ns, pr_length = int (length path) - 1 \<rparr>))))"


section \<open>Paths, shortest paths and the order of discovery\<close>

text \<open>
  A walk is a sequence of ids in which each id is a neighbour of the one before it; a
  path between \<open>a\<close> and \<open>b\<close> is a non-empty walk from \<open>a\<close> to \<open>b\<close>, and it is
  shortest when no path between them has fewer ids.
\<close>

fun walk :: "Graph \<Rightarrow> string list \<Rightarrow> bool" where
  "walk g [] = True"
| "walk g [x] = True"
| "walk g (x # y # p) = (y \<in> set (neighbors g x) \<and> walk g (y # p))"

definition path_between :: "Graph \<Rightarrow> string \<Rightarrow> string \<Rightarrow> string list \<Rightarrow> bool" where
  "path_between g a b p = (p \<noteq> [] \<and> hd p = a \<and> last p = b \<and> walk g p)"

definition shortest_between :: "Graph \<Rightarrow> string \<Rightarrow> string \<Rightarrow> string list \<Rightarrow> bool" where
  "shortest_between g a b p =
     (path_between g a b p \<and> (\<forall>q. path_between g a b q \<longrightarrow> length p \<le> length q))"

text \<open>
  The choice sequence of a walk lists, for each step, the position of the next id in the
  \<open>neighbors()\<close> list of the current one. Breadth-first expansion in insertion order
  reaches an id first along the shortest path whose choice sequence is lexicographically
  least: \<open>first_discovered\<close> says that no path of the same length has a smaller one.
\<close>

fun index_of :: "'a \<Rightarrow> 'a list \<Rightarrow> nat" where
  "index_of x [] = 0"
| "index_of x (y # ys) = (if x = y then 0 else Suc (index_of x ys))"

fun choices :: "Graph \<Rightarrow> string list \<Rightarrow> nat list" where
  "choices g (x # y # p) = index_of y (neighbors g x) # choices g (y # p)"
| "choices g p = []"

fun lex_le :: "nat list \<Rightarrow> nat list \<Rightarrow> bool" where
  "lex_le [] ys = True"
| "lex_le (x # xs) [] = False"
| "lex_le (x # xs) (y # ys) = (x < y \<or> (x = y \<and> lex_le xs ys))"

definition first_discovered :: "Graph \<Rightarrow> string \<Rightarrow> string \<Rightarrow> string list \<Rightarrow> bool" where
  "first_discovered g a b p =
     (\<forall>q. path_between g a b q \<and> length q = length p \<longrightarrow> lex_le (choices g p) (choices g q))"


section \<open>Invariants of the breadth-first search\<close>

text \<open>
  The invariants carry, for every visited id, its depth \<open>d\<close> and the choice sequence
  \<open>sg\<close> of its path in the parent map. \<open>bfs_tree\<close>: the parent map leads from every
  visited id back to the source in \<open>d\<close> steps and no path is shorter. \<open>bfs_front\<close>: the
  queue, while the neighbours \<open>ns\<close> of the dequeued id \<open>c\<close> are still to be looked at,
  is sorted by depth, spans at most two depths, and every visited id outside it has all its
  neighbours visited. \<open>bfs_order\<close>: the queue is sorted by choice sequence (shorter
  first, \<open>earlier\<close>), and the choice sequence of a visited id is least among the paths
  of its depth.
\<close>

definition earlier :: "nat list \<Rightarrow> nat list \<Rightarrow> bool" where
  "earlier a b = (length a < length b \<or> (length a = length b \<and> lex_le a b \<and> a \<noteq> b))"

definition bfs_tree :: "Graph \<Rightarrow> string \<Rightarrow> (string \<Rightarrow> nat) \<Rightarrow> string set
    \<Rightarrow> (string \<Rightarrow> string option) \<Rightarrow> bool" where
  "bfs_tree g s d V P =
     (s \<in> V \<and> d s = 0
      \<and> (\<forall>v \<in> V. v \<noteq> s \<longrightarrow>
            (\<exists>u \<in> V. P v = Some u \<and> v \<in> set (neighbors g u) \<and> d v = Suc (d u)))
      \<and> (\<forall>v \<in> V. \<forall>p. path_between g s v p \<longrightarrow> d v < length p))"

definition bfs_front :: "Graph \<Rightarrow> string \<Rightarrow> (string \<Rightarrow> nat) \<Rightarrow> string set
    \<Rightarrow> string \<Rightarrow> string list \<Rightarrow> string list \<Rightarrow> bool" where
  "bfs_front g s d V c Q ns =
     (c \<in> V \<and> set Q \<subseteq> V \<and> set ns \<subseteq> set (neighbors g c)
      \<and> sorted (map d (c # Q)) \<and> (\<forall>x \<in> set Q. d x \<le> Suc (d c))
      \<and> (\<forall>v \<in> V. v \<notin> set Q \<longrightarrow> v \<noteq> c \<longrightarrow> set (neighbors g v) \<subseteq> V)
      \<and> set (neighbors g c) \<subseteq> V \<union> set ns
      \<and> (\<forall>p v. path_between g s v p \<and> length p \<le> Suc (d c) \<longrightarrow> v \<in> V))"

definition bfs_order :: "Graph \<Rightarrow> string \<Rightarrow> (string \<Rightarrow> nat list) \<Rightarrow> string set
    \<Rightarrow> (string \<Rightarrow> string option) \<Rightarrow> string \<Rightarrow> string list \<Rightarrow> string list \<Rightarrow> string list
    \<Rightarrow> bool" where
  "bfs_order g s sg V P c Q seen ns =
     (sg s = [] \<and> neighbors g c = seen @ ns \<and> set seen \<subseteq> V
      \<and> (\<forall>v \<in> V. v \<noteq> s \<longrightarrow>
            (\<exists>u \<in> V. P v = Some u \<and> sg v = sg u @ [index_of v (neighbors g u)]))
      \<and> (\<forall>v \<in> V. \<forall>q. path_between g s v q \<and> length q = Suc (length (sg v))
            \<longrightarrow> lex_le (sg v) (choices g q))
      \<and> sorted_wrt (\<lambda>x y. earlier (sg x) (sg y)) (c # Q)
      \<and> (\<forall>x \<in> set Q. earlier (sg x) (sg c @ [0])
            \<or> (x \<in> set seen \<and> sg x = sg c @ [index_of x (neighbors g c)])))"

definition bfs_order_inv :: "Graph \<Rightarrow> string \<Rightarrow> string \<Rightarrow> bfs \<Rightarrow> bool" where
  "bfs_order_inv g s t st =
     (t \<notin> set (visited st)
      \<and> (\<exists>sg. bfs_tree g s (length \<circ> sg) (set (visited st)) (map_get (parent st))
            \<and> (case queue st of
                  [] \<Rightarrow> \<forall>v \<in> set (visited st). set (neighbors g v) \<subseteq> set (visited st)
                | c # Q \<Rightarrow>
                    bfs_front g s (length \<circ> sg) (set (visited st)) c Q (neighbors g c)
                    \<and> bfs_order g s sg (set (visited st)) (map_get (parent st)) c Q []
                         (neighbors g c))))"

section \<open>The name that \<open>search\<close> matches\<close>

text \<open>The string \<open>data.name ?? id\<close> of a node; empty where the name is not a string.\<close>

definition node_name :: "Graph \<Rightarrow> string \<Rightarrow> string" where
  "node_name g i =
     (case coalesce (get_prop (node_record g i) ''name'') (JStr i) of JStr nm \<Rightarrow> nm | _ \<Rightarrow> [])"

section \<open>Ids without the separator of the edge key\<close>

text \<open>
  The adjacency entries as directed pairs, in the order in which \<open>edges()\<close> meets them;
  a graph is \<open>pipe_free\<close> when no id of such a pair contains the character \<open>|\<close>.
\<close>

definition directed_pairs :: "Graph \<Rightarrow> (string \<times> string) list" where
  "directed_pairs g = concat (map (\<lambda>e. map (Pair (fst e)) (map_keys (snd e))) (adjacency g))"

definition pipe_free :: "Graph \<Rightarrow> bool" where
  "pipe_free g = (\<forall>e \<in> set (directed_pairs g). CHR ''|'' \<notin> set (fst e) \<and> CHR ''|'' \<notin> set (snd e))"

section \<open>The \<open>addEdge\<close> calls of work-credit ingestion\<close>





section \<open>Graphs built through the public operations\<close>

text \<open>
  The adjacency map is private: a graph is the empty one, or comes from a graph by an
  \<open>addNode\<close> or an \<open>addEdge\<close> that returned, or by \<open>assignCommunities\<close>.
\<close>

inductive built :: "Graph \<Rightarrow> bool" where
  built_new: "built new_Graph"
| built_addNode: "built g \<Longrightarrow> addNode node g = Inr g' \<Longrightarrow> built g'"
| built_addEdge: "built g \<Longrightarrow> addEdge a b w meta g = Inr g' \<Longrightarrow> built g'"
| built_assign: "built g \<Longrightarrow> built (fst (assignCommunities g))"

section \<open>Example graphs and records\<close>

definition single_graph :: Graph where
  "single_graph = \<lparr> adjacency = [(''a'', [])], nodeData = [(''a'', stub ''a'')] \<rparr>"

text \<open>A star: the hub \<open>h\<close> joined to the 49 leaves \<open>l1\<close>, ..., \<open>l49\<close>.\<close>

definition star_leaves :: "string list" where
  "star_leaves = map (\<lambda>k. ''l'' @ show_nat k) [1 ..< 50]"

definition star_graph :: Graph where
  "star_graph =
     \<lparr> adjacency = (''h'', map (\<lambda>l. (l, 1)) star_leaves) # map (\<lambda>l. (l, [(''h'', 1)])) star_leaves,
       nodeData = map (\<lambda>i. (i, stub i)) (''h'' # star_leaves) \<rparr>"

definition labelled_graph :: Graph where
  "labelled_graph = \<lparr> adjacency = [(''a'', [])],
      nodeData = [(''a'', [(''id'', JStr ''a''), (''name'', JStr ''a''), (''communityId'', JStr ''C1'')])] \<rparr>"

definition renamed_node :: jsobj where
  "renamed_node = [(''id'', JStr ''a''), (''name'', JStr ''B'')]"

definition renamed_graph :: Graph where
  "renamed_graph = \<lparr> adjacency = [(''a'', [])], nodeData = [(''a'', renamed_node)] \<rparr>"



definition taylor_graph :: Graph where
  "taylor_graph = \<lparr> adjacency = [(''ts'', []), (''ed'', [])],
      nodeData = [(''ts'', [(''id'', JStr ''ts''), (''name'', JStr ''Taylor Swift'')]),
                  (''ed'', [(''id'', JStr ''ed''), (''name'', JStr ''Ed'')])] \<rparr>"

definition pipe_graph :: Graph where
  "pipe_graph = \<lparr> adjacency = [(''x'', [(''y|z'', 1)]), (''y|z'', [(''x'', 1)]),
                                (''x|y'', [(''z'', 2)]), (''z'', [(''x|y'', 2)])],
      nodeData = [(''x'', stub ''x''), (''y|z'', stub ''y|z''), (''x|y'', stub ''x|y''),
                  (''z'', stub ''z'')] \<rparr>"

definition loop_graph :: Graph where
  "loop_graph = \<lparr> adjacency = [(''x'', [(''x|x|x'', 1)]), (''x|x|x'', [(''x'', 1)]),
                                (''x|x'', [(''x|x'', 1)])],
      nodeData = [(''x'', stub ''x''), (''x|x|x'', stub ''x|x|x''), (''x|x'', stub ''x|x'')] \<rparr>"

definition two_components :: Graph where
  "two_components = \<lparr> adjacency = [(''A'', [(''B'', 1)]), (''B'', [(''A'', 1)]),
                                     (''X'', [(''Y'', 1)]), (''Y'', [(''X'', 1)])],
      nodeData = [(''A'', stub ''A''), (''B'', stub ''B''), (''X'', stub ''X''), (''Y'', stub ''Y'')] \<rparr>"

definition path_graph :: Graph where
  "path_graph = \<lparr> adjacency = [(''A'', [(''B'', 1)]), (''B'', [(''A'', 1), (''C'', 1)]),
                                (''C'', [(''B'', 1), (''D'', 1)]), (''D'', [(''C'', 1)])],
      nodeData = [(''A'', stub ''A''), (''B'', stub ''B''), (''C'', stub ''C''), (''D'', stub ''D'')] \<rparr>"

definition diamond_graph :: Graph where
  "diamond_graph = \<lparr> adjacency = [(''A'', [(''B'', 1), (''C'', 1)]), (''B'', [(''A'', 1), (''D'', 1)]),
                                   (''C'', [(''A'', 1), (''D'', 1)]), (''D'', [(''B'', 1), (''C'', 1)])],
      nodeData = [(''A'', stub ''A''), (''B'', stub ''B''), (''C'', stub ''C''), (''D'', stub ''D'')] \<rparr>"

section \<open>Facts about maps and objects\<close>

lemma map_keys_Nil [simp]: "map_keys [] = []"
  by (simp add: map_keys_def)

lemma map_get_map_set: "map_get (map_set k v m) k' = (if k' = k then Some v else map_get m k')"
  by (induction m) (auto simp: map_get_def)

lemma map_get_map_set_fun: "map_get (map_set k v m) = (map_get m)(k \<mapsto> v)"
  by (rule ext) (simp add: map_get_map_set)

lemma map_keys_map_set:
  "map_keys (map_set k v m) = (if k \<in> set (map_keys m) then map_keys m else map_keys m @ [k])"
  by (induction m) (force simp: map_keys_def)+

lemma map_has_iff: "map_has m k \<longleftrightarrow> map_get m k \<noteq> None"
  by (simp add: map_has_def map_get_def map_of_eq_None_iff)

lemma map_has_keys: "map_has m k \<longleftrightarrow> k \<in> set (map_keys m)"
  by (simp add: map_has_def map_keys_def)

lemma map_get_spread:
  "map_get (spread base extra) k =
     (case map_of (rev extra) k of None \<Rightarrow> map_get base k | Some v \<Rightarrow> Some v)"
  unfolding spread_def
proof (induction extra arbitrary: base)
  case Nil
  then show ?case by simp
next
  case (Cons e extra)
  obtain k' v' where e: "e = (k', v')" by (cases e)
  show ?case
    by (simp add: Cons.IH e map_get_map_set map_add_def split: option.splits)
qed

lemma map_set_absent: "\<not> map_has m k \<Longrightarrow> map_set k v m = m @ [(k, v)]"
  by (induction m) (auto simp: map_has_def)

lemma map_set_entries:
  "set (map_set k v m) \<subseteq> insert (k, v) (set m)"
  by (induction m) (auto split: if_splits)

lemma map_of_rev_distinct: "distinct (map fst xs) \<Longrightarrow> map_of (rev xs) = map_of xs"
  by (metis distinct_rev map_of_inject_set rev_map set_rev)

lemma set_set_add [simp]: "set (set_add x s) = insert x (set s)"
  by (auto simp: set_add_def)

lemma addNode_Inr:
  assumes "addNode node g = Inr g'"
  obtains i where "coalesce (get_prop node ''id'') (get_prop node ''name'') = JStr i" "i \<noteq> []"
    "g' = \<lparr> adjacency = (if \<not> map_has (adjacency g) i then map_set i [] (adjacency g)
                          else adjacency g),
            nodeData = map_set i (spread [(''id'', JStr i)] node) (nodeData g) \<rparr>"
  using assms unfolding addNode_def Let_def
  by (cases "coalesce (get_prop node ''id'') (get_prop node ''name'')")
     (auto split: if_splits)

subsection \<open>The example graphs are built by the public operations\<close>

lemma single_graph_built: "addNode (stub ''a'') new_Graph = Inr single_graph"
  by (simp add: addNode_def stub_def new_Graph_def single_graph_def get_prop_def map_get_def
      coalesce_def spread_def map_has_def Let_def)

lemma star_graph_built:
  "for_each (\<lambda>g l. addEdge ''h'' l 1 [] g) new_Graph star_leaves = Inr star_graph"
  by code_simp

lemma connectedComponents_single: "connectedComponents single_graph = [[''a'']]"
  by (simp add: connectedComponents_def single_graph_def nodes_def map_keys_def set_add_def
      neighbors_def map_get_def dfs_loop_Nil dfs_loop_Cons)

lemma labelled_graph_built: "assignCommunities single_graph = (labelled_graph, [[''a'']])"
  by (simp add: assignCommunities_def connectedComponents_single Let_def assign_comp_def)
     (simp add: single_graph_def labelled_graph_def map_get_def stub_def spread_def digit_char_def)

lemma renamed_graph_built: "addNode renamed_node labelled_graph = Inr renamed_graph"
  by (simp add: addNode_def renamed_node_def labelled_graph_def renamed_graph_def get_prop_def
      map_get_def coalesce_def spread_def map_has_def Let_def)

lemma taylor_graph_built:
  "then_do (addNode [(''id'', JStr ''ts''), (''name'', JStr ''Taylor Swift'')] new_Graph)
     (addNode [(''id'', JStr ''ed''), (''name'', JStr ''Ed'')]) = Inr taylor_graph"
  by (simp add: then_do_def addNode_def new_Graph_def taylor_graph_def get_prop_def
      map_get_def coalesce_def spread_def map_has_def Let_def)

lemma two_components_built:
  "then_do (addEdge ''A'' ''B'' 1 [] new_Graph) (addEdge ''X'' ''Y'' 1 []) = Inr two_components"
  by code_simp

lemma path_graph_built:
  "then_do (then_do (addEdge ''A'' ''B'' 1 [] new_Graph) (addEdge ''B'' ''C'' 1 []))
     (addEdge ''C'' ''D'' 1 []) = Inr path_graph"
  by code_simp

lemma diamond_graph_built:
  "then_do (then_do (then_do (addEdge ''A'' ''B'' 1 [] new_Graph) (addEdge ''A'' ''C'' 1 []))
     (addEdge ''B'' ''D'' 1 [])) (addEdge ''C'' ''D'' 1 []) = Inr diamond_graph"
  by code_simp

section \<open>Correctness of the breadth-first search\<close>

subsection \<open>Walks and the lexicographic order\<close>

lemma walk_snoc: "walk g (p @ [u, v]) \<longleftrightarrow> walk g (p @ [u]) \<and> v \<in> set (neighbors g u)"
  by (induction g p rule: walk.induct) auto

lemma walk_closed:
  "walk g p \<Longrightarrow> p \<noteq> [] \<Longrightarrow> hd p \<in> V \<Longrightarrow> \<forall>v \<in> V. set (neighbors g v) \<subseteq> V
     \<Longrightarrow> last p \<in> V"
proof (induction g p rule: walk.induct)
  case (3 g x y p)
  from 3 have "y \<in> V" by auto
  with 3 show ?case by simp
qed simp_all

lemma path_between_single: "path_between g a a [a]"
  by (simp add: path_between_def)

lemma path_between_snocE:
  assumes "path_between g s v p" "v \<noteq> s"
  obtains p' u where "p = p' @ [v]" "path_between g s u p'" "v \<in> set (neighbors g u)"
proof -
  from assms have "p \<noteq> []" "last p = v" "hd p = s" "walk g p"
    by (simp_all add: path_between_def)
  then obtain p' where p: "p = p' @ [v]"
    by (metis append_butlast_last_id)
  with \<open>hd p = s\<close> assms(2) have ne: "p' \<noteq> []" by auto
  then obtain p'' u where p': "p' = p'' @ [u]"
    by (metis append_butlast_last_id)
  from \<open>walk g p\<close> have "walk g (p'' @ [u])" "v \<in> set (neighbors g u)"
    by (simp_all add: p p' walk_snoc)
  moreover have "hd p' = s" using \<open>hd p = s\<close> p ne by simp
  ultimately have "path_between g s u p'"
    using ne by (simp add: path_between_def p')
  then show ?thesis using that p \<open>v \<in> set (neighbors g u)\<close> by blast
qed

lemma lex_le_refl [simp]: "lex_le a a"
  by (induction a) auto

lemma lex_le_trans: "lex_le a b \<Longrightarrow> lex_le b c \<Longrightarrow> lex_le a c"
proof (induction a b arbitrary: c rule: lex_le.induct)
  case (3 x xs y ys)
  then show ?case by (cases c) auto
qed auto

lemma lex_le_Nil: "lex_le a [] \<longleftrightarrow> a = []"
  by (cases a) auto

lemma lex_le_antisym: "lex_le a b \<Longrightarrow> lex_le b a \<Longrightarrow> a = b"
  by (induction a b rule: lex_le.induct) (auto simp: lex_le_Nil)

lemma lex_le_snoc_same:
  "length a = length b \<Longrightarrow> lex_le a b \<Longrightarrow> lex_le (a @ [x]) (b @ [x])"
  by (induction a b rule: lex_le.induct) auto

lemma lex_le_snoc_strict:
  "length a = length b \<Longrightarrow> lex_le a b \<Longrightarrow> a \<noteq> b \<Longrightarrow> lex_le (a @ [x]) (b @ [y])"
  by (induction a b rule: lex_le.induct) auto

lemma lex_le_snoc_last: "i \<le> j \<Longrightarrow> lex_le (a @ [i]) (a @ [j])"
  by (induction a) auto

lemma earlier_trans: "earlier a b \<Longrightarrow> earlier b c \<Longrightarrow> earlier a c"
  unfolding earlier_def
  using lex_le_trans lex_le_antisym by (metis less_trans)

lemma earlier_snoc: "earlier a b \<Longrightarrow> earlier (a @ [k]) (b @ [m])"
  unfolding earlier_def
  using lex_le_snoc_strict by auto

lemma earlier_snoc_last: "i < j \<Longrightarrow> earlier (a @ [i]) (a @ [j])"
  unfolding earlier_def
  using lex_le_snoc_last [of i j a] by auto

lemma earlier_self_snoc: "earlier a (a @ [k])"
  by (simp add: earlier_def)

lemma earlier_first_child: "earlier x (a @ [0]) \<Longrightarrow> earlier x (a @ [j])"
  using earlier_trans [of x "a @ [0]" "a @ [j]"] earlier_snoc_last [of 0 j a]
  by (cases "j = 0") auto

lemma earlier_same_length: "earlier a b \<Longrightarrow> length a = length b \<Longrightarrow> lex_le a b \<and> a \<noteq> b"
  by (auto simp: earlier_def)

lemma index_of_append_in: "x \<in> set xs \<Longrightarrow> index_of x (xs @ ys) = index_of x xs"
  by (induction xs) auto

lemma index_of_less: "x \<in> set xs \<Longrightarrow> index_of x xs < length xs"
  by (induction xs) auto

lemma index_of_append_out: "x \<notin> set xs \<Longrightarrow> index_of x (xs @ ys) = length xs + index_of x ys"
  by (induction xs) auto

lemma choices_snoc:
  "choices g (p @ [u, v]) = choices g (p @ [u]) @ [index_of v (neighbors g u)]"
  by (induction g p rule: choices.induct) auto

lemma length_choices: "length (choices g p) = length p - 1"
  by (induction g p rule: choices.induct) auto

subsection \<open>One step of the loops keeps the invariants\<close>

lemma tree_extend:
  assumes "bfs_tree g s d V P" "bfs_front g s d V c Q ns" "n \<in> set ns" "n \<notin> V"
  shows "bfs_tree g s (d(n := Suc (d c))) (insert n V) (P(n \<mapsto> c))"
proof -
  let ?d = "d(n := Suc (d c))"
  from assms have sV: "s \<in> V" and ds: "d s = 0" and cV: "c \<in> V"
    and nN: "n \<in> set (neighbors g c)"
    by (auto simp: bfs_tree_def bfs_front_def)
  have ns: "n \<noteq> s" and nc: "n \<noteq> c" using sV cV assms(4) by auto
  have par: "\<exists>u \<in> insert n V. (P(n \<mapsto> c)) v = Some u \<and> v \<in> set (neighbors g u) \<and> ?d v = Suc (?d u)"
    if "v \<in> insert n V" "v \<noteq> s" for v
  proof (cases "v = n")
    case True
    then show ?thesis using cV nN nc by auto
  next
    case False
    with that have "v \<in> V" by simp
    with assms(1) that(2) obtain u where "u \<in> V" "P v = Some u" "v \<in> set (neighbors g u)"
      "d v = Suc (d u)"
      unfolding bfs_tree_def by blast
    moreover have "u \<noteq> n" using \<open>u \<in> V\<close> assms(4) by auto
    ultimately show ?thesis using False by auto
  qed
  have short: "?d v < length p" if "v \<in> insert n V" "path_between g s v p" for v p
  proof (cases "v = n")
    case True
    have "\<not> length p \<le> Suc (d c)"
      using assms(2) that(2) assms(4) True unfolding bfs_front_def by blast
    then show ?thesis using True by simp
  next
    case False
    with that have "v \<in> V" by simp
    then show ?thesis using assms(1) that(2) False unfolding bfs_tree_def by auto
  qed
  show ?thesis
    unfolding bfs_tree_def using sV ds ns par short by auto
qed

lemma front_skip:
  "bfs_front g s d V c Q (n # ns) \<Longrightarrow> n \<in> V \<Longrightarrow> bfs_front g s d V c Q ns"
  unfolding bfs_front_def by auto

lemma front_push:
  assumes "bfs_front g s d V c Q (n # ns)" "n \<notin> V"
  shows "bfs_front g s (d(n := Suc (d c))) (insert n V) c (Q @ [n]) ns"
proof -
  let ?d = "d(n := Suc (d c))"
  from assms have cV: "c \<in> V" and QV: "set Q \<subseteq> V" by (auto simp: bfs_front_def)
  have nc: "n \<noteq> c" and nQ: "n \<notin> set Q" using cV QV assms(2) by auto
  have same: "map ?d (c # Q) = map d (c # Q)" using nc nQ by auto
  have sorted_d: "sorted (map d (c # Q))" and bound: "\<forall>x \<in> set Q. d x \<le> Suc (d c)"
    using assms(1) by (auto simp: bfs_front_def)
  have "sorted (map ?d (c # Q) @ [?d n])"
    unfolding same using sorted_d bound by (auto simp: sorted_append)
  then have srt: "sorted (map ?d (c # (Q @ [n])))" by simp
  have bnd: "\<forall>x \<in> set (Q @ [n]). ?d x \<le> Suc (?d c)"
    using bound nc by auto
  show ?thesis
    unfolding bfs_front_def
    apply (intro conjI)
    subgoal using cV by simp
    subgoal using QV by auto
    subgoal using assms(1) by (auto simp: bfs_front_def)
    subgoal by (rule srt)
    subgoal by (rule bnd)
    subgoal using assms(1) unfolding bfs_front_def by auto
    subgoal using assms(1) unfolding bfs_front_def by auto
    subgoal using assms(1) nc unfolding bfs_front_def by auto
    done
qed

lemma front_next:
  assumes "bfs_tree g s d V P" "bfs_front g s d V c (c' # Q) []"
  shows "bfs_front g s d V c' Q (neighbors g c')"
proof -
  from assms(2) have cV: "c \<in> V" and c'V: "c' \<in> V" and QV: "set Q \<subseteq> V"
    and srt: "sorted (map d (c # c' # Q))" and bound: "\<forall>x \<in> set (c' # Q). d x \<le> Suc (d c)"
    and closed: "\<forall>v \<in> V. v \<notin> set (c' # Q) \<longrightarrow> v \<noteq> c \<longrightarrow> set (neighbors g v) \<subseteq> V"
    and cdone: "set (neighbors g c) \<subseteq> V"
    and full: "\<forall>p v. path_between g s v p \<and> length p \<le> Suc (d c) \<longrightarrow> v \<in> V"
    by (auto simp: bfs_front_def)
  have le: "d c \<le> d c'" and srt': "sorted (map d (c' # Q))" using srt by auto
  have bound': "\<forall>x \<in> set Q. d x \<le> Suc (d c')" using bound le by auto
  have closed': "set (neighbors g v) \<subseteq> V" if "v \<in> V" "v \<notin> set Q" "v \<noteq> c'" for v
    using that closed cdone by (cases "v = c") auto
  have full': "v \<in> V" if pb: "path_between g s v p" and len: "length p \<le> Suc (d c')" for p v
  proof (cases "length p \<le> Suc (d c)")
    case True
    then show ?thesis using full pb by blast
  next
    case False
    have sV: "s \<in> V" using assms(1) by (simp add: bfs_tree_def)
    show ?thesis
    proof (cases "v = s")
      case True
      then show ?thesis using sV by simp
    next
      case vs: False
      from pb vs obtain p' u where p: "p = p' @ [v]" and pu: "path_between g s u p'"
        and vN: "v \<in> set (neighbors g u)"
        by (rule path_between_snocE)
      have dc': "d c' = Suc (d c)" using False len bound by auto
      have "length p' \<le> Suc (d c)" using len p dc' by simp
      then have uV: "u \<in> V" using full pu by blast
      then have "d u < length p'" using assms(1) pu unfolding bfs_tree_def by blast
      then have du: "d u < d c'" using \<open>length p' \<le> Suc (d c)\<close> dc' by simp
      have "u \<notin> set (c' # Q)"
      proof
        assume "u \<in> set (c' # Q)"
        then have "d c' \<le> d u" using srt' by auto
        with du show False by simp
      qed
      then have "set (neighbors g u) \<subseteq> V"
        using closed cdone uV by (cases "u = c") auto
      then show ?thesis using vN by auto
    qed
  qed
  show ?thesis
    unfolding bfs_front_def
    using c'V QV srt' bound' closed' full' by auto
qed

lemma front_done:
  assumes "bfs_front g s d V c [] []"
  shows "\<forall>v \<in> V. set (neighbors g v) \<subseteq> V"
proof
  fix v assume "v \<in> V"
  then show "set (neighbors g v) \<subseteq> V"
    using assms unfolding bfs_front_def by (cases "v = c") auto
qed

lemma order_skip:
  "bfs_order g s sg V P c Q seen (n # ns) \<Longrightarrow> n \<in> V
     \<Longrightarrow> bfs_order g s sg V P c Q (seen @ [n]) ns"
  unfolding bfs_order_def by auto

lemma order_next:
  assumes "bfs_order g s sg V P c (c' # Q) seen []"
  shows "bfs_order g s sg V P c' Q [] (neighbors g c')"
proof -
  from assms have srt: "sorted_wrt (\<lambda>x y. earlier (sg x) (sg y)) (c # c' # Q)"
    and kids: "\<forall>x \<in> set (c' # Q). earlier (sg x) (sg c @ [0])
            \<or> (x \<in> set seen \<and> sg x = sg c @ [index_of x (neighbors g c)])"
    by (auto simp: bfs_order_def)
  have cc': "earlier (sg c) (sg c')" using srt by simp
  have "earlier (sg x) (sg c' @ [0])" if "x \<in> set Q" for x
  proof -
    from kids that have "earlier (sg x) (sg c @ [0])
            \<or> sg x = sg c @ [index_of x (neighbors g c)]"
      by auto
    then show ?thesis
    proof
      assume "earlier (sg x) (sg c @ [0])"
      then show ?thesis using earlier_snoc [OF cc'] earlier_trans by blast
    next
      assume "sg x = sg c @ [index_of x (neighbors g c)]"
      then show ?thesis using earlier_snoc [OF cc'] by simp
    qed
  qed
  then show ?thesis
    using assms unfolding bfs_order_def by auto
qed

lemma order_push:
  assumes tree: "bfs_tree g s (length \<circ> sg) V P"
    and front: "bfs_front g s (length \<circ> sg) V c Q (n # ns)"
    and ord: "bfs_order g s sg V P c Q seen (n # ns)"
    and nV: "n \<notin> V"
  shows "bfs_order g s (sg(n := sg c @ [index_of n (neighbors g c)])) (insert n V)
           (P(n \<mapsto> c)) c (Q @ [n]) (seen @ [n]) ns"
proof -
  let ?j = "index_of n (neighbors g c)"
  let ?sg = "sg(n := sg c @ [?j])"
  from tree have sV: "s \<in> V" by (simp add: bfs_tree_def)
  from front have cV: "c \<in> V" and QV: "set Q \<subseteq> V"
    and dsorted: "sorted (map (length \<circ> sg) (c # Q))"
    and closed: "\<forall>v \<in> V. v \<notin> set Q \<longrightarrow> v \<noteq> c \<longrightarrow> set (neighbors g v) \<subseteq> V"
    and full: "\<forall>p v. path_between g s v p \<and> length p \<le> Suc ((length \<circ> sg) c) \<longrightarrow> v \<in> V"
    by (auto simp: bfs_front_def)
  from ord have sgs: "sg s = []" and nbrs: "neighbors g c = seen @ n # ns"
    and seenV: "set seen \<subseteq> V"
    and par: "\<forall>v \<in> V. v \<noteq> s \<longrightarrow>
            (\<exists>u \<in> V. P v = Some u \<and> sg v = sg u @ [index_of v (neighbors g u)])"
    and least: "\<forall>v \<in> V. \<forall>q. path_between g s v q \<and> length q = Suc (length (sg v))
            \<longrightarrow> lex_le (sg v) (choices g q)"
    and srt: "sorted_wrt (\<lambda>x y. earlier (sg x) (sg y)) (c # Q)"
    and kids: "\<forall>x \<in> set Q. earlier (sg x) (sg c @ [0])
            \<or> (x \<in> set seen \<and> sg x = sg c @ [index_of x (neighbors g c)])"
    by (auto simp: bfs_order_def)
  have ns: "n \<noteq> s" and nc: "n \<noteq> c" and nQ: "n \<notin> set Q" and nseen: "n \<notin> set seen"
    using sV cV QV seenV nV by auto
  have same: "?sg v = sg v" if "v \<in> V" for v using that nV by auto
  have j: "?j = length seen + 0"
    using nseen by (simp add: nbrs index_of_append_out)
  have before: "earlier (sg x) (sg c @ [?j])" if "x \<in> set Q" for x
  proof -
    from kids that have "earlier (sg x) (sg c @ [0])
            \<or> (x \<in> set seen \<and> sg x = sg c @ [index_of x (neighbors g c)])"
      by blast
    then show ?thesis
    proof
      assume "earlier (sg x) (sg c @ [0])"
      then show ?thesis by (rule earlier_first_child)
    next
      assume x: "x \<in> set seen \<and> sg x = sg c @ [index_of x (neighbors g c)]"
      then have "index_of x (neighbors g c) < ?j"
        using j by (simp add: nbrs index_of_append_in index_of_less)
      then show ?thesis using x earlier_snoc_last by simp
    qed
  qed
  have c1: "?sg s = []" using sgs ns by simp
  have c2: "neighbors g c = (seen @ [n]) @ ns" using nbrs by simp
  have c3: "set (seen @ [n]) \<subseteq> insert n V" using seenV by auto
  have c4: "\<exists>u \<in> insert n V. (P(n \<mapsto> c)) v = Some u
               \<and> ?sg v = ?sg u @ [index_of v (neighbors g u)]"
    if "v \<in> insert n V" "v \<noteq> s" for v
  proof (cases "v = n")
    case True
    then show ?thesis using cV nc by auto
  next
    case False
    with that have "v \<in> V" by simp
    with par that(2) obtain u where "u \<in> V" "P v = Some u"
      "sg v = sg u @ [index_of v (neighbors g u)]"
      by blast
    then show ?thesis using False same \<open>v \<in> V\<close> by auto
  qed
  have c5: "lex_le (?sg v) (choices g q)"
    if "v \<in> insert n V" "path_between g s v q" "length q = Suc (length (?sg v))" for v q
  proof (cases "v = n")
    case False
    with that have "v \<in> V" by simp
    then show ?thesis using least that(2,3) same by auto
  next
    case True
    from that(2) True ns obtain q' u where q: "q = q' @ [n]" and q': "path_between g s u q'"
      and nu: "n \<in> set (neighbors g u)"
      using path_between_snocE by metis
    have lq': "length q' = Suc (length (sg c))"
      using that(3) True q by simp
    then have "length q' \<le> Suc ((length \<circ> sg) c)" by simp
    with full q' have uV: "u \<in> V" by blast
    have "(length \<circ> sg) u < length q'"
      using tree uV q' unfolding bfs_tree_def by blast
    then have le: "length (sg u) \<le> length (sg c)" using lq' by simp
    have open_u: "u = c \<or> u \<in> set Q"
    proof (rule ccontr)
      assume "\<not> (u = c \<or> u \<in> set Q)"
      then have "set (neighbors g u) \<subseteq> V" using closed uV by blast
      with nu nV show False by auto
    qed
    have len: "length (sg u) = length (sg c)"
    proof (cases "u = c")
      case True
      then show ?thesis by simp
    next
      case False
      with open_u have "u \<in> set Q" by simp
      then have "length (sg c) \<le> length (sg u)" using dsorted by auto
      with le show ?thesis by simp
    qed
    have q'ne: "q' \<noteq> []" and lastq': "last q' = u"
      using q' by (simp_all add: path_between_def)
    then obtain r where r: "q' = r @ [u]" by (metis append_butlast_last_id)
    have ch: "choices g q = choices g q' @ [index_of n (neighbors g u)]"
      by (simp add: q r choices_snoc)
    have lch: "length (choices g q') = length (sg c)"
      using lq' by (simp add: length_choices)
    have lu: "lex_le (sg u) (choices g q')"
      using least uV q' lq' len by auto
    show ?thesis
    proof (cases "u = c")
      case True
      then show ?thesis
        using lu lch \<open>v = n\<close> by (simp add: ch lex_le_snoc_same)
    next
      case False
      with open_u have "u \<in> set Q" by simp
      then have "earlier (sg c) (sg u)" using srt by simp
      then have cu: "lex_le (sg c) (sg u)" and ne: "sg c \<noteq> sg u"
        using earlier_same_length [of "sg c" "sg u"] len by auto
      have le1: "lex_le (sg c) (choices g q')"
        using cu lu by (rule lex_le_trans)
      have ne1: "sg c \<noteq> choices g q'"
      proof
        assume "sg c = choices g q'"
        with lu have "lex_le (sg u) (sg c)" by simp
        with cu have "sg c = sg u" by (rule lex_le_antisym)
        with ne show False by simp
      qed
      have "lex_le (sg c @ [?j]) (choices g q' @ [index_of n (neighbors g u)])"
        using lch le1 ne1 by (intro lex_le_snoc_strict) simp_all
      then show ?thesis
        using \<open>v = n\<close> by (simp add: ch)
    qed
  qed
  have sorted_old: "sorted_wrt (\<lambda>x y. earlier (?sg x) (?sg y)) (c # Q)"
  proof (rule sorted_wrt_mono_rel [OF _ srt])
    fix x y assume "x \<in> set (c # Q)" "y \<in> set (c # Q)" "earlier (sg x) (sg y)"
    then show "earlier (?sg x) (?sg y)" using nc nQ by auto
  qed
  have "\<forall>x \<in> set (c # Q). earlier (?sg x) (?sg n)"
    using before earlier_self_snoc nc nQ by auto
  then have c6: "sorted_wrt (\<lambda>x y. earlier (?sg x) (?sg y)) (c # (Q @ [n]))"
    using sorted_old by (simp add: sorted_wrt_append)
  have c7: "earlier (?sg x) (?sg c @ [0])
            \<or> (x \<in> set (seen @ [n]) \<and> ?sg x = ?sg c @ [index_of x (neighbors g c)])"
    if "x \<in> set (Q @ [n])" for x
  proof (cases "x = n")
    case True
    then show ?thesis using nc by simp
  next
    case False
    with that have "x \<in> set Q" by simp
    then show ?thesis using kids False nc by auto
  qed
  show ?thesis
    unfolding bfs_order_def
  proof (intro conjI ballI allI impI)
    show "?sg s = []" by (rule c1)
    show "neighbors g c = (seen @ [n]) @ ns" by (rule c2)
    show "set (seen @ [n]) \<subseteq> insert n V" by (rule c3)
    show "sorted_wrt (\<lambda>x y. earlier (?sg x) (?sg y)) (c # Q @ [n])" using c6 by simp
  next
    fix v assume "v \<in> insert n V" "v \<noteq> s"
    then show "\<exists>u \<in> insert n V. (P(n \<mapsto> c)) v = Some u
               \<and> ?sg v = ?sg u @ [index_of v (neighbors g u)]"
      by (rule c4)
  next
    fix v q assume "v \<in> insert n V"
      "path_between g s v q \<and> length q = Suc (length (?sg v))"
    then show "lex_le (?sg v) (choices g q)" using c5 by blast
  next
    fix x assume "x \<in> set (Q @ [n])"
    then show "earlier (?sg x) (?sg c @ [0])
            \<or> (x \<in> set (seen @ [n]) \<and> ?sg x = ?sg c @ [index_of x (neighbors g c)])"
      by (rule c7)
  qed
qed

lemma depth_update:
  "(length \<circ> sg)(n := Suc ((length \<circ> sg) c)) = length \<circ> (sg(n := sg c @ [j]))"
  by (rule ext) simp

subsection \<open>The parent map gives back the path\<close>

lemma tree_path_choices:
  assumes "bfs_tree g s (length \<circ> sg) V (map_get par)"
    and "bfs_order g s sg V (map_get par) c Q seen ns"
    and "v \<in> V"
  shows "\<exists>p. path_between g s v (p @ [v]) \<and> length p = length (sg v)
           \<and> (\<forall>path. walk_back par s v path = Some (Some (p @ rev path)))
           \<and> choices g (p @ [v]) = sg v"
  using assms(3)
proof (induction "length (sg v)" arbitrary: v)
  case 0
  have "v = s"
  proof (rule ccontr)
    assume "v \<noteq> s"
    then obtain u where "(length \<circ> sg) v = Suc ((length \<circ> sg) u)"
      using assms(1) 0(2) unfolding bfs_tree_def by blast
    with 0(1) show False by simp
  qed
  then have "\<forall>path. walk_back par s v path = Some (Some ([] @ rev path))"
    by (simp add: walk_back.simps)
  moreover have "path_between g s v ([] @ [v])"
    using \<open>v = s\<close> by (simp add: path_between_def)
  moreover have "choices g ([] @ [v]) = sg v"
    using 0(1) by simp
  moreover have "length ([] :: string list) = length (sg v)" using 0(1) by simp
  ultimately show ?case by blast
next
  case (Suc k)
  have sgs: "sg s = []" using assms(2) by (simp add: bfs_order_def)
  with Suc(2) have vs: "v \<noteq> s" by auto
  then obtain u where uV: "u \<in> V" and pu: "map_get par v = Some u"
    and vN: "v \<in> set (neighbors g u)"
    using assms(1) Suc(3) unfolding bfs_tree_def by blast
  from vs Suc(3) assms(2) obtain u' where "map_get par v = Some u'"
    "sg v = sg u' @ [index_of v (neighbors g u')]"
    unfolding bfs_order_def by blast
  with pu have sv: "sg v = sg u @ [index_of v (neighbors g u)]" by simp
  with Suc(2) have "k = length (sg u)" by simp
  from Suc(1) [OF this uV] obtain q where q: "path_between g s u (q @ [u])"
    and lq: "length q = length (sg u)"
    and wq: "\<forall>path. walk_back par s u path = Some (Some (q @ rev path))"
    and cq: "choices g (q @ [u]) = sg u"
    by blast
  have "path_between g s v ((q @ [u]) @ [v])"
    using q vN by (auto simp: path_between_def walk_snoc hd_append)
  moreover have "length (q @ [u]) = length (sg v)" using lq sv by simp
  moreover have "walk_back par s v path = Some (Some ((q @ [u]) @ rev path))" for path
    using vs pu wq by (subst walk_back.simps) simp
  moreover have "choices g ((q @ [u]) @ [v]) = sg v"
    using cq sv by (simp add: choices_snoc)
  ultimately show ?case by blast
qed

subsection \<open>The loops\<close>

lemma visit_nbrs_order:
  assumes "bfs_tree g s (length \<circ> sg) (set (visited st)) (map_get (parent st))"
    and "bfs_front g s (length \<circ> sg) (set (visited st)) c (queue st) ns"
    and "bfs_order g s sg (set (visited st)) (map_get (parent st)) c (queue st) seen ns"
    and "t \<notin> set (visited st)"
  shows "case visit_nbrs t c ns st of
           Inl par \<Rightarrow> \<exists>p. reconstructPath par s t = Some (Some p) \<and> shortest_between g s t p
                        \<and> first_discovered g s t p
         | Inr st' \<Rightarrow>
             \<exists>sg' seen'. bfs_tree g s (length \<circ> sg') (set (visited st')) (map_get (parent st'))
                \<and> bfs_front g s (length \<circ> sg') (set (visited st')) c (queue st') []
                \<and> bfs_order g s sg' (set (visited st')) (map_get (parent st')) c (queue st') seen' []
                \<and> t \<notin> set (visited st')"
  using assms
proof (induction ns arbitrary: st sg seen)
  case Nil
  then have "\<exists>sg' seen'. bfs_tree g s (length \<circ> sg') (set (visited st)) (map_get (parent st))
                \<and> bfs_front g s (length \<circ> sg') (set (visited st)) c (queue st) []
                \<and> bfs_order g s sg' (set (visited st)) (map_get (parent st)) c (queue st) seen' []
                \<and> t \<notin> set (visited st)"
    by blast
  then show ?case by (simp only: visit_nbrs.simps sum.case)
next
  case (Cons n ns)
  show ?case
  proof (cases "n \<in> set (visited st)")
    case True
    have f: "bfs_front g s (length \<circ> sg) (set (visited st)) c (queue st) ns"
      using Cons.prems(2) True by (rule front_skip)
    have o: "bfs_order g s sg (set (visited st)) (map_get (parent st)) c (queue st) (seen @ [n]) ns"
      using Cons.prems(3) True by (rule order_skip)
    from Cons.IH [OF Cons.prems(1) f o Cons.prems(4)] True show ?thesis by simp
  next
    case False
    let ?j = "index_of n (neighbors g c)"
    let ?sg = "sg(n := sg c @ [?j])"
    let ?V = "insert n (set (visited st))"
    let ?par = "map_set n c (parent st)"
    have "bfs_tree g s ((length \<circ> sg)(n := Suc ((length \<circ> sg) c))) ?V (map_get ?par)"
      unfolding map_get_map_set_fun
      using Cons.prems(1,2) _ False by (rule tree_extend) simp
    then have tree': "bfs_tree g s (length \<circ> ?sg) ?V (map_get ?par)"
      unfolding depth_update [of sg n c ?j] .
    have "bfs_front g s ((length \<circ> sg)(n := Suc ((length \<circ> sg) c))) ?V c (queue st @ [n]) ns"
      using Cons.prems(2) False by (rule front_push)
    then have front': "bfs_front g s (length \<circ> ?sg) ?V c (queue st @ [n]) ns"
      unfolding depth_update [of sg n c ?j] .
    have order': "bfs_order g s ?sg ?V (map_get ?par) c (queue st @ [n]) (seen @ [n]) ns"
      unfolding map_get_map_set_fun
      using Cons.prems(1,2,3) False by (rule order_push)
    show ?thesis
    proof (cases "n = t")
      case True
      from tree_path_choices [OF tree' order', of t] True obtain p where
        pb: "path_between g s t (p @ [t])" and len: "length p = length (?sg t)"
        and wb: "\<forall>path. walk_back ?par s t path = Some (Some (p @ rev path))"
        and ch: "choices g (p @ [t]) = ?sg t"
        by auto
      have rp: "reconstructPath ?par s t = Some (Some (p @ [t]))"
        using wb by (simp add: reconstructPath_def)
      have "length (p @ [t]) \<le> length q" if "path_between g s t q" for q
      proof -
        have "(length \<circ> ?sg) t < length q"
          using tree' that True unfolding bfs_tree_def by blast
        then show ?thesis using len by simp
      qed
      then have sh: "shortest_between g s t (p @ [t])"
        using pb unfolding shortest_between_def by blast
      have "lex_le (choices g (p @ [t])) (choices g q)"
        if "path_between g s t q" "length q = length (p @ [t])" for q
      proof -
        have "length q = Suc (length (?sg t))" using that(2) len by simp
        moreover have "t \<in> ?V" using True by simp
        ultimately have "lex_le (?sg t) (choices g q)"
          using order' that(1) unfolding bfs_order_def by blast
        then show ?thesis using ch by simp
      qed
      then have "first_discovered g s t (p @ [t])"
        unfolding first_discovered_def by blast
      with rp sh have "\<exists>p. reconstructPath ?par s t = Some (Some p) \<and> shortest_between g s t p
                        \<and> first_discovered g s t p"
        by blast
      then show ?thesis using False True by (simp add: Let_def)
    next
      case nt: False
      let ?st = "st\<lparr> visited := set_add n (visited st), parent := ?par,
                     queue := queue st @ [n] \<rparr>"
      have t1: "bfs_tree g s (length \<circ> ?sg) (set (visited ?st)) (map_get (parent ?st))"
        using tree' by simp
      have f1: "bfs_front g s (length \<circ> ?sg) (set (visited ?st)) c (queue ?st) ns"
        using front' by simp
      have o1: "bfs_order g s ?sg (set (visited ?st)) (map_get (parent ?st)) c (queue ?st)
                  (seen @ [n]) ns"
        using order' by simp
      have v1: "t \<notin> set (visited ?st)"
        using nt Cons.prems(4) by simp
      from Cons.IH [OF t1 f1 o1 v1] show ?thesis using False nt by (simp add: Let_def)
    qed
  qed
qed

lemma bfs_loop_order:
  "bfs_order_inv g s t st \<Longrightarrow>
     (bfs_loop g s t st = Some None \<and> \<not> (\<exists>q. path_between g s t q))
     \<or> (\<exists>p. bfs_loop g s t st = Some (Some p) \<and> shortest_between g s t p
            \<and> first_discovered g s t p)"
proof (induction g s t st rule: bfs_loop.induct)
  case (1 g s t st)
  from "1.prems" obtain sg where tV: "t \<notin> set (visited st)"
    and tree: "bfs_tree g s (length \<circ> sg) (set (visited st)) (map_get (parent st))"
    and fr: "case queue st of
                  [] \<Rightarrow> \<forall>v \<in> set (visited st). set (neighbors g v) \<subseteq> set (visited st)
                | c # Q \<Rightarrow>
                    bfs_front g s (length \<circ> sg) (set (visited st)) c Q (neighbors g c)
                    \<and> bfs_order g s sg (set (visited st)) (map_get (parent st)) c Q []
                         (neighbors g c)"
    unfolding bfs_order_inv_def by blast
  show ?case
  proof (cases "queue st")
    case Nil
    with fr have closed: "\<forall>v \<in> set (visited st). set (neighbors g v) \<subseteq> set (visited st)"
      by simp
    have sV: "s \<in> set (visited st)" using tree by (simp add: bfs_tree_def)
    have "\<not> path_between g s t q" for q
    proof
      assume "path_between g s t q"
      then have "walk g q" "q \<noteq> []" "hd q = s" "last q = t"
        by (simp_all add: path_between_def)
      with walk_closed [OF this(1,2) _ closed] sV tV show False by simp
    qed
    then show ?thesis using Nil by (simp add: bfs_loop_empty)
  next
    case (Cons c Q)
    let ?st = "st\<lparr> queue := Q \<rparr>"
    from fr Cons have front: "bfs_front g s (length \<circ> sg) (set (visited ?st)) c (queue ?st) (neighbors g c)"
      and order: "bfs_order g s sg (set (visited ?st)) (map_get (parent ?st)) c (queue ?st) []
                         (neighbors g c)"
      by simp_all
    have tree0: "bfs_tree g s (length \<circ> sg) (set (visited ?st)) (map_get (parent ?st))"
      using tree by simp
    have tV0: "t \<notin> set (visited ?st)" using tV by simp
    note step = visit_nbrs_order [OF tree0 front order tV0]
    show ?thesis
    proof (cases "visit_nbrs t c (neighbors g c) ?st")
      case (Inl par)
      with step show ?thesis using Cons by (simp add: bfs_loop_step)
    next
      case (Inr st')
      with step obtain sg' seen' where
        tree': "bfs_tree g s (length \<circ> sg') (set (visited st')) (map_get (parent st'))"
        and front': "bfs_front g s (length \<circ> sg') (set (visited st')) c (queue st') []"
        and order': "bfs_order g s sg' (set (visited st')) (map_get (parent st')) c (queue st') seen' []"
        and tV': "t \<notin> set (visited st')"
        by auto
      have "case queue st' of
                  [] \<Rightarrow> \<forall>v \<in> set (visited st'). set (neighbors g v) \<subseteq> set (visited st')
                | c' # Q' \<Rightarrow>
                    bfs_front g s (length \<circ> sg') (set (visited st')) c' Q' (neighbors g c')
                    \<and> bfs_order g s sg' (set (visited st')) (map_get (parent st')) c' Q' []
                         (neighbors g c')"
      proof (cases "queue st'")
        case Nil
        then show ?thesis using front' front_done by auto
      next
        case (Cons c' Q')
        then show ?thesis using front_next [OF tree'] front' order_next order' by auto
      qed
      then have "bfs_order_inv g s t st'"
        unfolding bfs_order_inv_def using tree' tV' by blast
      from "1.IH" [OF Cons Inr this] show ?thesis
        using Cons Inr by (simp add: bfs_loop_step)
    qed
  qed
qed

lemma bfs_order_inv_initial:
  assumes "s \<noteq> t"
  shows "bfs_order_inv g s t \<lparr> queue = [s], visited = [s], parent = [] \<rparr>"
proof -
  let ?sg = "\<lambda>_ :: string. [] :: nat list"
  have tree: "bfs_tree g s (length \<circ> ?sg) {s} (map_get [])"
    by (auto simp: bfs_tree_def path_between_def)
  have one: "v = s" if "path_between g s v p" "length p \<le> Suc 0" for p v
  proof -
    from that have "p \<noteq> []" by (simp add: path_between_def)
    with that(2) obtain x where "p = [x]" by (cases p) auto
    with that(1) show ?thesis by (auto simp: path_between_def)
  qed
  have front: "bfs_front g s (length \<circ> ?sg) {s} s [] (neighbors g s)"
    unfolding bfs_front_def using one by auto
  have order: "bfs_order g s ?sg {s} (map_get []) s [] [] (neighbors g s)"
    unfolding bfs_order_def by simp
  from tree front order assms show ?thesis
    unfolding bfs_order_inv_def by auto
qed

lemma shortestPath_cases:
  "(shortestPath g a b = Some None
      \<and> (a \<notin> set (nodes g) \<or> b \<notin> set (nodes g) \<or> \<not> (\<exists>q. path_between g a b q)))
   \<or> (\<exists>p. shortestPath g a b = Some (Some p) \<and> a \<in> set (nodes g) \<and> b \<in> set (nodes g)
          \<and> shortest_between g a b p \<and> first_discovered g a b p)"
proof (cases "a \<in> set (nodes g) \<and> b \<in> set (nodes g)")
  case False
  then show ?thesis by (auto simp: shortestPath_def map_has_keys nodes_def)
next
  case present: True
  show ?thesis
  proof (cases "a = b")
    case True
    have "shortest_between g a a [a]"
      by (auto simp: shortest_between_def path_between_def Suc_leI)
    moreover have "first_discovered g a a [a]"
      by (simp add: first_discovered_def)
    ultimately show ?thesis
      using present True by (auto simp: shortestPath_def map_has_keys nodes_def)
  next
    case False
    from bfs_loop_order [OF bfs_order_inv_initial [OF False], of g] present False
    show ?thesis by (auto simp: shortestPath_def map_has_keys nodes_def)
  qed
qed

subsection \<open>Shortest path between distinct connected nodes\<close>

lemma path_graph_example:
  "shortestPath path_graph ''A'' ''D'' = Some (Some [''A'', ''B'', ''C'', ''D''])
   \<and> map_option (map_sum id (map_option (\<lambda>r. (map no_id (pr_nodes r), pr_length r))))
        (shortestPath_query ''A'' ''D'' path_graph)
      = Some (Inr (Some ([''A'', ''B'', ''C'', ''D''], 3)))"
  by code_simp

text \<open>
  Claim C1. For every graph and every pair of distinct ids \<open>a\<close> and \<open>b\<close> that are keys
  of the adjacency map and joined by some path \<open>q\<close>, \<open>shortestPath(a, b)\<close> returns a
  sequence that starts at \<open>a\<close>, ends at \<open>b\<close>, has consecutive ids adjacent, is no longer
  than \<open>q\<close>, and, against any path \<open>q\<close> of the same length, takes the earlier position
  in the \<open>neighbors()\<close> list at the first step where the two differ: it is the path that
  breadth-first expansion in adjacency insertion order discovers first, a function of the
  stored insertion order alone. For the path graph A-B-C-D it returns \<open>[A, B, C, D]\<close>, and
  the resolver reports the hop count 3.
\<close>

theorem shortestPath_first_path:
  "(a \<in> set (nodes g) \<and> b \<in> set (nodes g) \<and> a \<noteq> b \<and> path_between g a b q \<longrightarrow>
      (\<exists>p. shortestPath g a b = Some (Some p)
         \<and> p \<noteq> [] \<and> hd p = a \<and> last p = b \<and> walk g p
         \<and> length p \<le> length q
         \<and> (length q = length p \<longrightarrow> lex_le (choices g p) (choices g q))))
   \<and> shortestPath path_graph ''A'' ''D'' = Some (Some [''A'', ''B'', ''C'', ''D''])
   \<and> map_option (map_sum id (map_option (\<lambda>r. (map no_id (pr_nodes r), pr_length r))))
        (shortestPath_query ''A'' ''D'' path_graph)
      = Some (Inr (Some ([''A'', ''B'', ''C'', ''D''], 3)))"
proof (intro conjI impI)
  assume h: "a \<in> set (nodes g) \<and> b \<in> set (nodes g) \<and> a \<noteq> b \<and> path_between g a b q"
  then obtain p where p: "shortestPath g a b = Some (Some p)" "shortest_between g a b p"
    "first_discovered g a b p"
    using shortestPath_cases [of g a b] by auto
  from p(2) h have "p \<noteq> []" "hd p = a" "last p = b" "walk g p" "length p \<le> length q"
    by (auto simp: shortest_between_def path_between_def)
  moreover from p(3) h have "length q = length p \<longrightarrow> lex_le (choices g p) (choices g q)"
    by (auto simp: first_discovered_def)
  ultimately show "\<exists>p. shortestPath g a b = Some (Some p)
         \<and> p \<noteq> [] \<and> hd p = a \<and> last p = b \<and> walk g p
         \<and> length p \<le> length q
         \<and> (length q = length p \<longrightarrow> lex_le (choices g p) (choices g q))"
    using p(1) by blast
qed (use path_graph_example in simp_all)

theorem shortestPath_first_path_witness:
  "''A'' \<in> set (nodes diamond_graph) \<and> ''D'' \<in> set (nodes diamond_graph)
   \<and> path_between diamond_graph ''A'' ''D'' [''A'', ''C'', ''D'']
   \<and> path_between diamond_graph ''A'' ''D'' [''A'', ''B'', ''D'']
   \<and> shortestPath diamond_graph ''A'' ''D'' = Some (Some [''A'', ''B'', ''D''])
   \<and> length [''A'', ''B'', ''D''] \<le> length [''A'', ''C'', ''D'']
   \<and> choices diamond_graph [''A'', ''B'', ''D''] = [0, 1]
   \<and> choices diamond_graph [''A'', ''C'', ''D''] = [1, 1]
   \<and> lex_le (choices diamond_graph [''A'', ''B'', ''D'']) (choices diamond_graph [''A'', ''C'', ''D''])"
proof -
  have n: "''A'' \<in> set (nodes diamond_graph)" "''D'' \<in> set (nodes diamond_graph)"
    by code_simp+
  have q: "path_between diamond_graph ''A'' ''D'' [''A'', ''C'', ''D'']"
    by code_simp
  have q': "path_between diamond_graph ''A'' ''D'' [''A'', ''B'', ''D'']"
    by code_simp
  have e: "shortestPath diamond_graph ''A'' ''D'' = Some (Some [''A'', ''B'', ''D''])"
    by code_simp
  have c1: "choices diamond_graph [''A'', ''B'', ''D''] = [0, 1]"
    by code_simp
  have c2: "choices diamond_graph [''A'', ''C'', ''D''] = [1, 1]"
    by code_simp
  have ne: "''A'' \<noteq> ''D''" by simp
  from shortestPath_first_path [of "''A''" diamond_graph "''D''" "[''A'', ''C'', ''D'']"] n q ne e
  have "lex_le (choices diamond_graph [''A'', ''B'', ''D''])
          (choices diamond_graph [''A'', ''C'', ''D''])"
    by simp
  then show ?thesis using n q q' e c1 c2 by simp
qed

subsection \<open>When the search returns null\<close>

text \<open>
  Claim C8. For every graph and every pair of ids \<open>x\<close>, \<open>y\<close>: \<open>shortestPath(x, y)\<close>
  returns (it neither throws nor runs forever), and it returns \<open>null\<close> exactly when \<open>x\<close>
  or \<open>y\<close> is not a key of the adjacency map or no path leads from \<open>x\<close> to \<open>y\<close>.
\<close>

theorem shortestPath_null_iff:
  "shortestPath g x y \<noteq> None
   \<and> (shortestPath g x y = Some None \<longleftrightarrow>
        x \<notin> set (nodes g) \<or> y \<notin> set (nodes g) \<or> \<not> (\<exists>p. path_between g x y p))"
  using shortestPath_cases [of g x y]
  by (auto simp: shortest_between_def)

theorem shortestPath_null_iff_witness:
  "shortestPath two_components ''A'' ''X'' = Some None
   \<and> ''A'' \<in> set (nodes two_components) \<and> ''X'' \<in> set (nodes two_components)
   \<and> \<not> (\<exists>p. path_between two_components ''A'' ''X'' p)
   \<and> shortestPath two_components ''A'' ''Q'' = Some None
   \<and> ''Q'' \<notin> set (nodes two_components)
   \<and> shortestPath two_components ''A'' ''B'' = Some (Some [''A'', ''B''])
   \<and> (\<exists>p. path_between two_components ''A'' ''B'' p)"
proof -
  have e1: "shortestPath two_components ''A'' ''X'' = Some None"
    by code_simp
  have e2: "shortestPath two_components ''A'' ''Q'' = Some None"
    by code_simp
  have e3: "shortestPath two_components ''A'' ''B'' = Some (Some [''A'', ''B''])"
    by code_simp
  have n: "''A'' \<in> set (nodes two_components)" "''X'' \<in> set (nodes two_components)"
    "''Q'' \<notin> set (nodes two_components)"
    by (simp_all add: two_components_def nodes_def map_keys_def)
  have "\<not> (\<exists>p. path_between two_components ''A'' ''X'' p)"
    using shortestPath_null_iff [of two_components "''A''" "''X''"] e1 n by simp
  moreover have "\<exists>p. path_between two_components ''A'' ''B'' p"
    using shortestPath_null_iff [of two_components "''A''" "''B''"] e3 by simp
  ultimately show ?thesis using e1 e2 e3 n by simp
qed

subsection \<open>From a node to itself\<close>

text \<open>
  Claim C9. For every node \<open>n\<close> present in a graph, \<open>shortestPath(n, n)\<close> returns the
  single-element path \<open>[n]\<close>.
\<close>

theorem shortestPath_self:
  "n \<in> set (nodes g) \<Longrightarrow> shortestPath g n n = Some (Some [n])"
  by (simp add: shortestPath_def nodes_def map_has_def map_keys_def)

theorem shortestPath_self_witness:
  "''a'' \<in> set (nodes single_graph) \<and> shortestPath single_graph ''a'' ''a'' = Some (Some [''a''])"
  using shortestPath_self [of "''a''" single_graph]
  by (simp add: single_graph_def nodes_def map_keys_def)

section \<open>Neighbours after \<open>addNode\<close>, \<open>addEdge\<close> and \<open>assignCommunities\<close>\<close>







section \<open>Connected components partition the nodes\<close>

text \<open>
  Every neighbour id of a graph built through \<open>addNode\<close> and \<open>addEdge\<close> is a node.
\<close>

lemma nbr_ids_new_Graph: "nbr_ids new_Graph \<subseteq> set (nodes new_Graph)"
  by (simp add: nbr_ids_def new_Graph_def)

lemma addNode_nbr_closed:
  assumes "addNode node g = Inr g'" "nbr_ids g \<subseteq> set (nodes g)"
  shows "nbr_ids g' \<subseteq> set (nodes g')"
proof -
  from assms(1) obtain i where
    g': "g' = \<lparr> adjacency = (if \<not> map_has (adjacency g) i then map_set i [] (adjacency g)
                          else adjacency g),
            nodeData = map_set i (spread [(''id'', JStr i)] node) (nodeData g) \<rparr>"
    by (rule addNode_Inr)
  show ?thesis
  proof (cases "map_has (adjacency g) i")
    case True
    then show ?thesis using assms(2) by (simp add: g' nbr_ids_def nodes_def)
  next
    case False
    then have "adjacency g' = adjacency g @ [(i, [])]"
      by (simp add: g' map_set_absent)
    then show ?thesis using assms(2) by (auto simp: nbr_ids_def nodes_def map_keys_def)
  qed
qed

lemma adj_set_nbr_closed:
  assumes "adj_set a b w g = Inr g'" "nbr_ids g \<subseteq> set (nodes g)" "b \<in> set (nodes g)"
  shows "nbr_ids g' \<subseteq> set (nodes g') \<and> set (nodes g') = set (nodes g)"
proof -
  from assms(1) obtain m where m: "map_get (adjacency g) a = Some m"
    and g': "g' = g\<lparr> adjacency := map_set a (map_set b w m) (adjacency g) \<rparr>"
    by (auto simp: adj_set_def split: option.splits)
  have am: "(a, m) \<in> set (adjacency g)"
    using m by (simp add: map_get_def map_of_SomeD)
  then have a: "a \<in> set (nodes g)"
    by (force simp: nodes_def map_keys_def)
  have nodes: "set (nodes g') = set (nodes g)"
    using a by (auto simp: g' nodes_def map_keys_map_set)
  have keys_m: "set (map_keys m) \<subseteq> nbr_ids g"
    using am by (force simp: nbr_ids_def)
  have "nbr_ids g' \<subseteq> nbr_ids g \<union> set (map_keys (map_set b w m))"
    using map_set_entries [of a "map_set b w m" "adjacency g"]
    by (auto simp: g' nbr_ids_def)
  also have "\<dots> \<subseteq> nbr_ids g \<union> {b}"
    using keys_m by (auto simp: map_keys_map_set)
  finally show ?thesis using assms(2,3) nodes by auto
qed

lemma ensure_node_nbr_closed:
  assumes "ensure_node a g = Inr g'" "nbr_ids g \<subseteq> set (nodes g)"
  shows "nbr_ids g' \<subseteq> set (nodes g') \<and> a \<in> set (nodes g') \<and> set (nodes g) \<subseteq> set (nodes g')"
proof (cases "map_has (adjacency g) a")
  case True
  then show ?thesis using assms by (auto simp: ensure_node_def map_has_keys nodes_def)
next
  case False
  then have add: "addNode (stub a) g = Inr g'" using assms(1) by (simp add: ensure_node_def)
  then obtain i where i: "coalesce (get_prop (stub a) ''id'') (get_prop (stub a) ''name'') = JStr i"
    and g': "g' = \<lparr> adjacency = (if \<not> map_has (adjacency g) i then map_set i [] (adjacency g)
                          else adjacency g),
            nodeData = map_set i (spread [(''id'', JStr i)] (stub a)) (nodeData g) \<rparr>"
    by (rule addNode_Inr)
  from i have "i = a" by (simp add: stub_def get_prop_def map_get_def coalesce_def)
  then have "a \<in> set (nodes g')" "set (nodes g) \<subseteq> set (nodes g')"
    using False by (auto simp: g' nodes_def map_keys_map_set)
  then show ?thesis using addNode_nbr_closed [OF add assms(2)] by simp
qed

lemma addEdge_nbr_closed:
  assumes "addEdge a b w meta g = Inr g'" "nbr_ids g \<subseteq> set (nodes g)"
  shows "nbr_ids g' \<subseteq> set (nodes g')"
proof -
  from assms(1) obtain g1 g2 g3 where s1: "ensure_node a g = Inr g1"
    and s2: "ensure_node b g1 = Inr g2" and s3: "adj_set a b w g2 = Inr g3"
    and s4: "adj_set b a w g3 = Inr g'"
    by (auto simp: addEdge_def then_do_def split: sum.splits)
  from ensure_node_nbr_closed [OF s1 assms(2)]
  have c1: "nbr_ids g1 \<subseteq> set (nodes g1)" "a \<in> set (nodes g1)" by auto
  from ensure_node_nbr_closed [OF s2 c1(1)] c1(2)
  have c2: "nbr_ids g2 \<subseteq> set (nodes g2)" "a \<in> set (nodes g2)" "b \<in> set (nodes g2)" by auto
  from adj_set_nbr_closed [OF s3 c2(1,3)] c2(2)
  have c3: "nbr_ids g3 \<subseteq> set (nodes g3)" "a \<in> set (nodes g3)" by auto
  from adj_set_nbr_closed [OF s4 c3] show ?thesis by blast
qed

lemma built_nbr_closed: "built g \<Longrightarrow> nbr_ids g \<subseteq> set (nodes g)"
proof (induction rule: built.induct)
  case built_new
  show ?case by (rule nbr_ids_new_Graph)
next
  case (built_addNode g node g')
  then show ?case using addNode_nbr_closed by blast
next
  case (built_addEdge g a b w meta g')
  then show ?case using addEdge_nbr_closed by blast
next
  case (built_assign g)
  then show ?case by (simp add: assignCommunities_def Let_def nbr_ids_def nodes_def)
qed






section \<open>\<open>edges()\<close> and ids that contain the separator of its key\<close>

text \<open>
  What holds after every \<open>addEdge(a, b, w)\<close> that returns, self-loops included: the
  weight \<open>w\<close> is stored in both directions, replacing what was stored, and each endpoint
  is a neighbour of the other.
\<close>

lemma map_get_keys: "map_get m k = Some v \<Longrightarrow> k \<in> set (map_keys m)"
  by (metis map_has_iff map_has_keys option.distinct(1))

lemma adj_set_get:
  assumes "adj_set a b w g = Inr g'"
  shows "\<exists>m. map_get (adjacency g') a = Some m \<and> map_get m b = Some w
           \<and> (\<forall>k. k \<noteq> a \<longrightarrow> map_get (adjacency g') k = map_get (adjacency g) k)
           \<and> (\<forall>m0 k. map_get (adjacency g) a = Some m0 \<and> k \<noteq> b \<longrightarrow> map_get m k = map_get m0 k)"
  using assms
  by (auto simp: adj_set_def map_get_map_set split: option.splits)

lemma addEdge_symmetric:
  assumes "addEdge a b w meta g = Inr g'"
  shows "\<exists>ma mb. map_get (adjacency g') a = Some ma \<and> map_get ma b = Some w
           \<and> map_get (adjacency g') b = Some mb \<and> map_get mb a = Some w
           \<and> b \<in> set (neighbors g' a) \<and> a \<in> set (neighbors g' b)"
proof -
  from assms obtain g2 g3 where s3: "adj_set a b w g2 = Inr g3"
    and s4: "adj_set b a w g3 = Inr g'"
    by (auto simp: addEdge_def then_do_def split: sum.splits)
  from adj_set_get [OF s3] obtain m3 where m3: "map_get (adjacency g3) a = Some m3"
    "map_get m3 b = Some w"
    by blast
  from adj_set_get [OF s4] obtain mb where mb: "map_get (adjacency g') b = Some mb"
    "map_get mb a = Some w"
    and other: "\<forall>k. k \<noteq> b \<longrightarrow> map_get (adjacency g') k = map_get (adjacency g3) k"
    by blast
  have "\<exists>ma. map_get (adjacency g') a = Some ma \<and> map_get ma b = Some w"
  proof (cases "a = b")
    case True
    then show ?thesis using mb by auto
  next
    case False
    then show ?thesis using other m3 by auto
  qed
  then obtain ma where ma: "map_get (adjacency g') a = Some ma" "map_get ma b = Some w"
    by blast
  have "b \<in> set (neighbors g' a)" "a \<in> set (neighbors g' b)"
    using ma mb map_get_keys by (auto simp: neighbors_def)
  then show ?thesis using ma mb by blast
qed

text \<open>
  When no id contains the separator, the key of a pair determines the unordered pair, and
  \<open>edges()\<close> emits every adjacent pair, self-loops included, exactly once.
\<close>

lemma str_less_asym: "str_less a b \<Longrightarrow> \<not> str_less b a"
  by (induction a b rule: str_less.induct) auto

lemma str_less_total: "\<not> str_less a b \<Longrightarrow> \<not> str_less b a \<Longrightarrow> a = b"
  by (induction a b rule: str_less.induct) (auto simp: not_less)

lemma edge_key_sym: "edge_key a b = edge_key b a"
  using str_less_asym [of a b] str_less_total [of a b]
  by (auto simp: edge_key_def)

lemma split_at_separator:
  "c \<notin> set x \<Longrightarrow> c \<notin> set x' \<Longrightarrow> x @ c # y = x' @ c # y' \<Longrightarrow> x = x' \<and> y = y'"
proof (induction x arbitrary: x')
  case Nil
  then show ?case by (cases x') auto
next
  case (Cons h t)
  then show ?case by (cases x') auto
qed

lemma edge_key_inj:
  assumes "CHR ''|'' \<notin> set a" "CHR ''|'' \<notin> set b" "CHR ''|'' \<notin> set c" "CHR ''|'' \<notin> set d"
    and "edge_key a b = edge_key c d"
  shows "(a = c \<and> b = d) \<or> (a = d \<and> b = c)"
proof -
  have key: "edge_key x y = (if str_less x y then x @ CHR ''|'' # y else y @ CHR ''|'' # x)" for x y
    by (simp add: edge_key_def)
  consider "a @ CHR ''|'' # b = c @ CHR ''|'' # d" | "a @ CHR ''|'' # b = d @ CHR ''|'' # c"
    | "b @ CHR ''|'' # a = c @ CHR ''|'' # d" | "b @ CHR ''|'' # a = d @ CHR ''|'' # c"
    using assms(5) unfolding key by (cases "str_less a b"; cases "str_less c d") simp_all
  then show ?thesis
  proof cases
    case 1
    from split_at_separator [OF assms(1,3) this] show ?thesis by simp
  next
    case 2
    from split_at_separator [OF assms(1,4) this] show ?thesis by simp
  next
    case 3
    from split_at_separator [OF assms(2,3) this] show ?thesis by simp
  next
    case 4
    from split_at_separator [OF assms(2,4) this] show ?thesis by simp
  qed
qed

lemma edges_fold_pairs:
  "foldl edges_row acc adj =
     foldl (\<lambda>acc e. edges_step (fst e) acc (snd e)) acc
       (concat (map (\<lambda>e. map (Pair (fst e)) (map_keys (snd e))) adj))"
proof (induction adj arbitrary: acc)
  case Nil
  then show ?case by simp
next
  case (Cons entry adj)
  have row: "foldl (edges_step a) acc ks
               = foldl (\<lambda>acc e. edges_step (fst e) acc (snd e)) acc (map (Pair a) ks)" for a ks acc
    by (induction ks arbitrary: acc) auto
  have step: "edges_row acc entry =
      foldl (\<lambda>acc e. edges_step (fst e) acc (snd e)) acc
        (map (Pair (fst entry)) (map_keys (snd entry)))"
    by (cases entry) (simp add: edges_row_def row)
  show ?case
    by (simp add: Cons.IH step)
qed

lemma edges_fold_inv:
  assumes "foldl (\<lambda>acc e. edges_step (fst e) acc (snd e)) (seen, all) ds = (seen', all')"
    and "map (\<lambda>e. edge_key (fst e) (snd e)) all = seen" "distinct seen"
  shows "map (\<lambda>e. edge_key (fst e) (snd e)) all' = seen' \<and> distinct seen'
         \<and> set seen' = set seen \<union> (\<lambda>e. edge_key (fst e) (snd e)) ` set ds
         \<and> set all' \<subseteq> set all \<union> set ds"
  using assms
proof (induction ds arbitrary: seen all)
  case Nil
  then show ?case by auto
next
  case (Cons e ds)
  let ?k = "edge_key (fst e) (snd e)"
  show ?case
  proof (cases "?k \<in> set seen")
    case True
    with Cons.prems(1) have "foldl (\<lambda>acc e. edges_step (fst e) acc (snd e)) (seen, all) ds = (seen', all')"
      by (simp add: edges_step_def)
    from Cons.IH [OF this Cons.prems(2,3)] True show ?thesis by auto
  next
    case False
    with Cons.prems(1) have run: "foldl (\<lambda>acc e. edges_step (fst e) acc (snd e))
        (seen @ [?k], all @ [(fst e, snd e)]) ds = (seen', all')"
      by (simp add: edges_step_def set_add_def)
    have "map (\<lambda>e. edge_key (fst e) (snd e)) (all @ [(fst e, snd e)]) = seen @ [?k]"
      using Cons.prems(2) by simp
    moreover have "distinct (seen @ [?k])" using Cons.prems(3) False by simp
    ultimately show ?thesis using Cons.IH [OF run] by auto
  qed
qed

lemma filter_unique_image:
  "distinct (map f xs) \<Longrightarrow> y \<in> f ` set xs \<Longrightarrow> length (filter (\<lambda>e. f e = y) xs) = 1"
proof (induction xs)
  case Nil
  then show ?case by simp
next
  case (Cons x xs)
  show ?case
  proof (cases "f x = y")
    case True
    have "f x \<notin> f ` set xs" using Cons.prems(1) by simp
    then have "\<forall>e \<in> set xs. f e \<noteq> f x" by (metis imageI)
    with True have "\<forall>e \<in> set xs. f e \<noteq> y" by simp
    then have "filter (\<lambda>e. f e = y) xs = []" by (simp add: filter_empty_conv)
    with True show ?thesis by simp
  next
    case False
    with Cons show ?thesis by auto
  qed
qed

lemma neighbors_directed_pairs:
  "b \<in> set (neighbors g a) \<Longrightarrow> (a, b) \<in> set (directed_pairs g)"
proof -
  assume b: "b \<in> set (neighbors g a)"
  then obtain m where m: "map_get (adjacency g) a = Some m" "b \<in> set (map_keys m)"
    by (cases "map_get (adjacency g) a") (auto simp: neighbors_def)
  then have "(a, m) \<in> set (adjacency g)"
    by (simp add: map_get_def map_of_SomeD)
  with m(2) show ?thesis
    by (force simp: directed_pairs_def)
qed

lemma edges_once_without_separator:
  assumes "pipe_free g" "b \<in> set (neighbors g a)"
  shows "length (filter (\<lambda>e. e = (a, b) \<or> e = (b, a)) (edges g)) = 1"
proof -
  let ?key = "\<lambda>e. edge_key (fst e) (snd e)"
  obtain seen' all' where run: "foldl (\<lambda>acc e. edges_step (fst e) acc (snd e)) ([], [])
      (directed_pairs g) = (seen', all')"
    by (cases "foldl (\<lambda>acc e. edges_step (fst e) acc (snd e)) ([], []) (directed_pairs g)")
  then have e: "edges g = all'"
    by (simp add: edges_def edges_fold_pairs directed_pairs_def)
  from edges_fold_inv [OF run] have inv: "map ?key all' = seen'" "distinct seen'"
    "set seen' = ?key ` set (directed_pairs g)" "set all' \<subseteq> set (directed_pairs g)"
    by auto
  have ab: "(a, b) \<in> set (directed_pairs g)"
    using assms(2) by (rule neighbors_directed_pairs)
  have "set seen' = ?key ` set all'"
    unfolding inv(1) [symmetric] by simp
  moreover have "?key (a, b) \<in> ?key ` set (directed_pairs g)"
    using ab by (rule imageI)
  ultimately have "?key (a, b) \<in> ?key ` set all'"
    using inv(3) by simp
  moreover have "distinct (map ?key all')" using inv(1,2) by simp
  ultimately have one: "length (filter (\<lambda>e. ?key e = ?key (a, b)) all') = 1"
    by (rule filter_unique_image [rotated])
  have "(?key x = ?key (a, b)) = (x = (a, b) \<or> x = (b, a))" if "x \<in> set all'" for x
  proof -
    from that inv(4) have "x \<in> set (directed_pairs g)" by auto
    with assms(1) ab have free: "CHR ''|'' \<notin> set (fst x)" "CHR ''|'' \<notin> set (snd x)"
      "CHR ''|'' \<notin> set a" "CHR ''|'' \<notin> set b"
      unfolding pipe_free_def by force+
    show ?thesis
    proof
      assume "?key x = ?key (a, b)"
      then have "edge_key (fst x) (snd x) = edge_key a b" by simp
      from edge_key_inj [OF free this] show "x = (a, b) \<or> x = (b, a)"
        by (cases x) auto
    next
      assume "x = (a, b) \<or> x = (b, a)"
      then show "?key x = ?key (a, b)" using edge_key_sym [of a b] by auto
    qed
  qed
  then have "filter (\<lambda>e. ?key e = ?key (a, b)) all' = filter (\<lambda>e. e = (a, b) \<or> e = (b, a)) all'"
    by (intro filter_cong) auto
  with one e show ?thesis by simp
qed

text \<open>
  Claim C3 says that after an edge is submitted again \<open>edges()\<close> emits its pair exactly
  once. The pairs \<open>(x, y|z)\<close> and \<open>(x|y, z)\<close> have the same key \<open>x|y|z\<close>: after
  \<open>addEdge(x, y|z, 1)\<close>, \<open>addEdge(x|y, z, 1)\<close> and \<open>addEdge(x|y, z, 2)\<close> the weight 2 is
  stored in both directions, and \<open>edges()\<close> emits the first pair only.
\<close>

theorem edges_key_collision:
  "then_do (then_do (addEdge ''x'' ''y|z'' 1 [] new_Graph) (addEdge ''x|y'' ''z'' 1 []))
     (addEdge ''x|y'' ''z'' 2 []) = Inr pipe_graph
   \<and> edge_key ''x'' ''y|z'' = edge_key ''x|y'' ''z''
   \<and> edges pipe_graph = [(''x'', ''y|z'')]
   \<and> length (filter (\<lambda>e. e = (''x|y'', ''z'') \<or> e = (''z'', ''x|y'')) (edges pipe_graph)) = 0"
  by code_simp

text \<open>
  Claim C10 says that after \<open>addEdge(a, a, w)\<close> the pair \<open>(a, a)\<close> is emitted by
  \<open>edges()\<close> exactly once. For \<open>a = x|x\<close> in a graph that already has the edge
  \<open>(x, x|x|x)\<close>, whose key is \<open>x|x|x|x\<close> too: \<open>a\<close> is its own neighbour, its degree
  is 1, and \<open>edges()\<close> does not emit \<open>(a, a)\<close>.
\<close>

theorem self_loop_key_collision:
  "then_do (addEdge ''x'' ''x|x|x'' 1 [] new_Graph) (addEdge ''x|x'' ''x|x'' 1 []) = Inr loop_graph
   \<and> neighbors loop_graph ''x|x'' = [''x|x'']
   \<and> degree loop_graph ''x|x'' = 1
   \<and> edges loop_graph = [(''x'', ''x|x|x'')]
   \<and> length (filter (\<lambda>e. e = (''x|x'', ''x|x'')) (edges loop_graph)) = 0"
  by code_simp

section \<open>Degree centrality\<close>

lemma centrality_fold_get:
  "map_get (foldl (\<lambda>result i. map_set i (f i) result) acc ns) k =
     (if k \<in> set ns then Some (f k) else map_get acc k)"
  by (induction ns arbitrary: acc) (auto simp: map_get_map_set)

lemma centrality_fold_keys:
  "set (map_keys (foldl (\<lambda>result i. map_set i (f i) result) acc ns)) =
     set (map_keys acc) \<union> set ns"
  by (induction ns arbitrary: acc) (auto simp: map_keys_map_set)

lemma double_round_zero: "double_round 0 = 0"
  by (simp add: double_round_def)

lemma degreeCentrality_get:
  "i \<in> set (nodes g) \<Longrightarrow>
     map_get (degreeCentrality normalized g) i =
       Some (double_round (real (degree g i) * centrality_scale normalized g))"
  by (simp add: degreeCentrality_def centrality_fold_get)

lemma degreeCentrality_keys: "set (map_keys (degreeCentrality normalized g)) = set (nodes g)"
  by (simp add: degreeCentrality_def centrality_fold_keys)

lemma centrality_scale_eq:
  "centrality_scale normalized g =
     (if \<not> normalized \<or> length (nodes g) \<le> 1 then 1
      else double_round (1 / (real (length (nodes g)) - 1)))"
  by (auto simp: centrality_scale_def nodes_def map_keys_def Let_def)

lemma degree_neighbors: "degree g i = length (neighbors g i)"
  by (simp add: degree_def neighbors_def map_keys_def split: option.splits)

text \<open>
  Claim C4, as stated, at the graph of one isolated node: the node has degree 0 and the
  scale is 1, so its centrality is 0 and not 1.
\<close>

theorem degreeCentrality_isolated_counterexample:
  "addNode (stub ''a'') new_Graph = Inr single_graph
   \<and> nodes single_graph = [''a'']
   \<and> degree single_graph ''a'' = 0
   \<and> map_get (degreeCentrality True single_graph) ''a'' = Some 0
   \<and> map_get (degreeCentrality True single_graph) ''a'' \<noteq> Some 1"
  using single_graph_built
  by (simp add: degreeCentrality_def single_graph_def nodes_def map_keys_def degree_def
      map_get_def centrality_scale_def double_round_zero)

text \<open>
  Claim C4, amended. \<open>degreeCentrality(normalize)\<close> maps each node id to the double
  product \<open>degree(id) * scale\<close>, where \<open>scale = 1\<close> if \<open>normalize\<close> is false or the graph
  has at most one node, and \<open>scale\<close> is the double quotient \<open>1/(N-1)\<close> otherwise; its keys
  are the node ids; on a graph whose only node is isolated the value for that node is 0.
\<close>

theorem degreeCentrality_formula:
  "(\<forall>i \<in> set (nodes g).
      map_get (degreeCentrality normalized g) i =
        Some (double_round (real (degree g i) *
              (if \<not> normalized \<or> length (nodes g) \<le> 1 then 1
               else double_round (1 / (real (length (nodes g)) - 1))))))
   \<and> set (map_keys (degreeCentrality normalized g)) = set (nodes g)
   \<and> (nodes g = [n] \<and> neighbors g n = [] \<longrightarrow> map_get (degreeCentrality True g) n = Some 0)"
proof (intro conjI ballI impI)
  fix i assume "i \<in> set (nodes g)"
  then show "map_get (degreeCentrality normalized g) i =
        Some (double_round (real (degree g i) *
              (if \<not> normalized \<or> length (nodes g) \<le> 1 then 1
               else double_round (1 / (real (length (nodes g)) - 1)))))"
    using degreeCentrality_get [of i g normalized] centrality_scale_eq [of normalized g] by simp
next
  show "set (map_keys (degreeCentrality normalized g)) = set (nodes g)"
    by (rule degreeCentrality_keys)
next
  assume "nodes g = [n] \<and> neighbors g n = []"
  then show "map_get (degreeCentrality True g) n = Some 0"
    using degreeCentrality_get [of n g True]
    by (simp add: degree_neighbors double_round_zero)
qed

theorem degreeCentrality_formula_witness:
  "''h'' \<in> set (nodes star_graph) \<and> length (nodes star_graph) = 50
   \<and> degree star_graph ''h'' = 49
   \<and> map_get (degreeCentrality True star_graph) ''h'' = Some (1 - 1 / 2 ^ 53)
   \<and> map_get (degreeCentrality False star_graph) ''h'' = Some 49
   \<and> nodes single_graph = [''a''] \<and> neighbors single_graph ''a'' = []
   \<and> map_get (degreeCentrality True single_graph) ''a'' = Some 0"
proof -
  have h: "''h'' \<in> set (nodes star_graph)" by code_simp
  have n: "length (nodes star_graph) = 50" by code_simp
  have d: "degree star_graph ''h'' = 49" by code_simp
  have r: "double_round (49 * double_round (1 / 49)) = 1 - 1 / 2 ^ 53" by code_simp
  have r': "double_round 49 = 49" by code_simp
  have a: "nodes single_graph = [''a'']" "neighbors single_graph ''a'' = []"
    by (simp_all add: single_graph_def nodes_def map_keys_def neighbors_def map_get_def)
  have "map_get (degreeCentrality True star_graph) ''h'' = Some (1 - 1 / 2 ^ 53)"
    using degreeCentrality_formula [of star_graph True] h n d r by simp
  moreover have "map_get (degreeCentrality False star_graph) ''h'' = Some 49"
    using degreeCentrality_formula [of star_graph False] h d r' by simp
  moreover have "map_get (degreeCentrality True single_graph) ''a'' = Some 0"
    using degreeCentrality_formula [of single_graph True "''a''", THEN conjunct2, THEN conjunct2] a
    by simp
  ultimately show ?thesis using h n d a by simp
qed

section \<open>The search resolver on blank queries\<close>

text \<open>
  Without a kind filter and a limit, a search that returns yields, in \<open>nodes()\<close> order,
  exactly the nodes whose lower-cased name includes the lower-cased query; every name
  includes the empty query.
\<close>

lemma str_includes_empty: "str_includes hay []"
  by (cases hay) simp_all

lemma createNodeObject_id: "createNodeObject i g cent = Inr n \<Longrightarrow> no_id n = i"
  by (auto simp: createNodeObject_def Let_def then_do_def split: sum.splits)

lemma search_match_Inr:
  assumes "search_match g cent q i = Inr r"
  shows "(r = None \<longleftrightarrow> \<not> str_includes (toLowerCase (node_name g i)) q)
         \<and> (\<forall>n. r = Some n \<longrightarrow> no_id n = i)"
proof (cases "coalesce (get_prop (node_record g i) ''name'') (JStr i)")
  case (JStr nm)
  then show ?thesis
    using assms createNodeObject_id [of i g cent]
    by (auto simp: search_match_def node_name_def then_do_def split: if_splits sum.splits)
qed (use assms in \<open>simp_all add: search_match_def\<close>)

lemma search_found_ids:
  "map_throwing (search_match g cent q) ns = Inr found \<Longrightarrow>
     map no_id (concat (map (\<lambda>r. case r of None \<Rightarrow> [] | Some n \<Rightarrow> [n]) found))
       = filter (\<lambda>i. str_includes (toLowerCase (node_name g i)) q) ns"
proof (induction ns arbitrary: found)
  case Nil
  then show ?case by simp
next
  case (Cons i ns)
  from Cons.prems obtain r rest where r: "search_match g cent q i = Inr r"
    and rest: "map_throwing (search_match g cent q) ns = Inr rest" and f: "found = r # rest"
    by (auto simp: then_do_def split: sum.splits)
  from search_match_Inr [OF r] Cons.IH [OF rest] show ?case
    by (cases r) (auto simp: f)
qed

lemma search_ids:
  assumes "search query None None g = Inr r"
  shows "map no_id (sr_nodes r)
           = filter (\<lambda>i. str_includes (toLowerCase (node_name g i)) (toLowerCase query)) (nodes g)
         \<and> sr_count r = length (sr_nodes r)"
proof -
  from assms obtain found where
    f: "map_throwing (search_match g (degreeCentrality True g) (toLowerCase query)) (nodes g) = Inr found"
    and r: "r = \<lparr> sr_nodes = concat (map (\<lambda>r. case r of None \<Rightarrow> [] | Some n \<Rightarrow> [n]) found),
                  sr_count = length (concat (map (\<lambda>r. case r of None \<Rightarrow> [] | Some n \<Rightarrow> [n]) found)) \<rparr>"
    by (auto simp: search_def Let_def then_do_def split: sum.splits)
  from search_found_ids [OF f] show ?thesis by (simp add: r)
qed

lemma search_empty_query_all:
  assumes "search [] None None g = Inr r"
  shows "map no_id (sr_nodes r) = nodes g"
  using search_ids [OF assms] by (simp add: toLowerCase_def str_includes_empty)

text \<open>
  Claim C5 says that an empty or whitespace-only query has no match. The resolver
  lower-cases the query without trimming it and keeps every node whose name includes it:
  on the graph of "Taylor Swift" and "Ed" the empty query returns both nodes and the query
  of one space returns "Taylor Swift"; the query "tay" matches "Taylor Swift" alone.
\<close>

theorem search_blank_query_matches:
  "map_sum id (\<lambda>r. (map no_id (sr_nodes r), sr_count r)) (search '''' None None taylor_graph)
     = Inr ([''ts'', ''ed''], 2)
   \<and> map_sum id (\<lambda>r. (map no_id (sr_nodes r), sr_count r)) (search '' '' None None taylor_graph)
     = Inr ([''ts''], 1)
   \<and> map_sum id (\<lambda>r. (map no_id (sr_nodes r), sr_count r)) (search ''tay'' None None taylor_graph)
     = Inr ([''ts''], 1)"
  by code_simp

section \<open>\<open>addNode\<close> on an id that is already stored\<close>

text \<open>
  Claim C6, as stated, at a node that \<open>assignCommunities\<close> has labelled \<open>C1\<close>: a second
  \<open>addNode\<close> for the same id stores \<open>{ id, ...node }\<close> alone, and the label is gone.
\<close>

theorem addNode_merge_counterexample:
  "assignCommunities single_graph = (labelled_graph, [[''a'']])
   \<and> get_prop (node_record labelled_graph ''a'') ''communityId'' = JStr ''C1''
   \<and> addNode renamed_node labelled_graph = Inr renamed_graph
   \<and> get_prop (node_record renamed_graph ''a'') ''communityId'' = JUndefined
   \<and> get_prop (node_record renamed_graph ''a'') ''communityId''
       \<noteq> get_prop (node_record labelled_graph ''a'') ''communityId''"
  using labelled_graph_built renamed_graph_built
  by (simp add: node_record_def get_prop_def map_get_def labelled_graph_def renamed_graph_def
      renamed_node_def)

text \<open>
  Claim C6, amended. For every node record (an object, so with each key once) passed to
  \<open>addNode\<close> whose call returns, with id \<open>i\<close>: the stored record becomes \<open>{ id, ...node }\<close>,
  so each of its properties is the passed record's (or the id), and a key present only in
  the previously stored record reads as \<open>undefined\<close>; the records of other ids are
  unchanged; an empty adjacency entry is appended only when the id had none, and an
  existing node's adjacency is left as it is.
\<close>

theorem addNode_replaces:
  assumes "addNode node g = Inr g'" and "distinct (map_keys node)"
    and "coalesce (get_prop node ''id'') (get_prop node ''name'') = JStr i"
  shows "map_get (nodeData g') i = Some (spread [(''id'', JStr i)] node)
    \<and> (\<forall>k. get_prop (node_record g' i) k =
          (if k \<in> set (map_keys node) then get_prop node k
           else if k = ''id'' then JStr i else JUndefined))
    \<and> (\<forall>j. j \<noteq> i \<longrightarrow> map_get (nodeData g') j = map_get (nodeData g) j)
    \<and> (map_has (adjacency g) i \<longrightarrow> adjacency g' = adjacency g)
    \<and> (\<not> map_has (adjacency g) i \<longrightarrow> adjacency g' = adjacency g @ [(i, [])])"
proof -
  from assms(1) obtain i' where i': "coalesce (get_prop node ''id'') (get_prop node ''name'') = JStr i'"
    and g': "g' = \<lparr> adjacency = (if \<not> map_has (adjacency g) i' then map_set i' [] (adjacency g)
                          else adjacency g),
            nodeData = map_set i' (spread [(''id'', JStr i')] node) (nodeData g) \<rparr>"
    by (rule addNode_Inr)
  from i' assms(3) have [simp]: "i' = i" by simp
  have stored: "map_get (nodeData g') i = Some (spread [(''id'', JStr i)] node)"
    by (simp add: g' map_get_map_set)
  have fields: "get_prop (node_record g' i) k =
          (if k \<in> set (map_keys node) then get_prop node k
           else if k = ''id'' then JStr i else JUndefined)" for k
  proof (cases "map_of node k")
    case None
    then have "k \<notin> set (map_keys node)"
      by (simp add: map_keys_def map_of_eq_None_iff)
    then show ?thesis
      using None assms(2)
      by (simp add: node_record_def stored get_prop_def map_get_spread map_of_rev_distinct map_keys_def)
         (simp add: map_get_def)
  next
    case (Some v)
    then have "k \<in> set (map_keys node)"
      by (metis map_keys_def map_of_eq_None_iff option.distinct(1) set_map)
    then show ?thesis
      using Some assms(2)
      by (simp add: node_record_def stored get_prop_def map_get_spread map_of_rev_distinct map_keys_def)
         (simp add: map_get_def)
  qed
  have others: "j \<noteq> i \<Longrightarrow> map_get (nodeData g') j = map_get (nodeData g) j" for j
    by (simp add: g' map_get_map_set)
  have adj1: "map_has (adjacency g) i \<Longrightarrow> adjacency g' = adjacency g"
    by (simp add: g')
  have adj2: "\<not> map_has (adjacency g) i \<Longrightarrow> adjacency g' = adjacency g @ [(i, [])]"
    by (simp add: g' map_set_absent)
  show ?thesis
    using stored fields others adj1 adj2 by blast
qed

theorem addNode_replaces_witness:
  "addNode renamed_node labelled_graph = Inr renamed_graph
   \<and> distinct (map_keys renamed_node)
   \<and> map_has (adjacency labelled_graph) ''a''
   \<and> map_get (nodeData renamed_graph) ''a'' = Some (spread [(''id'', JStr ''a'')] renamed_node)
   \<and> get_prop (node_record renamed_graph ''a'') ''communityId'' = JUndefined
   \<and> get_prop (node_record renamed_graph ''a'') ''name'' = JStr ''B''
   \<and> adjacency renamed_graph = adjacency labelled_graph"
  using addNode_replaces [of renamed_node labelled_graph renamed_graph "''a''"] renamed_graph_built
  by (simp add: renamed_node_def map_keys_def get_prop_def map_get_def coalesce_def
      labelled_graph_def map_has_def)

section \<open>Relation labels of work credits\<close>




subsection \<open>The calls made and the edges they leave\<close>














subsection \<open>Ingestion succeeds when no id is empty\<close>

lemma addNode_succeeds:
  assumes "get_prop node ''id'' = JStr i" "i \<noteq> []"
  shows "\<exists>g'. addNode node g = Inr g'"
  using assms by (simp add: addNode_def coalesce_def)

lemma ensure_node_succeeds:
  assumes "a \<noteq> []"
  shows "\<exists>g'. ensure_node a g = Inr g' \<and> map_has (adjacency g') a"
proof (cases "map_has (adjacency g) a")
  case True
  then show ?thesis by (simp add: ensure_node_def)
next
  case False
  have "get_prop (stub a) ''id'' = JStr a" by (simp add: stub_def get_prop_def map_get_def)
  then have "addNode (stub a) g =
      Inr \<lparr> adjacency = map_set a [] (adjacency g),
            nodeData = map_set a (spread [(''id'', JStr a)] (stub a)) (nodeData g) \<rparr>"
    using assms False by (simp add: addNode_def coalesce_def)
  then show ?thesis using False by (simp add: ensure_node_def map_has_iff map_get_map_set)
qed

lemma ensure_node_keeps:
  assumes "ensure_node a g = Inr g'" "map_has (adjacency g) x"
  shows "map_has (adjacency g') x"
proof (cases "map_has (adjacency g) a")
  case True
  then show ?thesis using assms by (simp add: ensure_node_def)
next
  case False
  then have "addNode (stub a) g = Inr g'" using assms(1) by (simp add: ensure_node_def)
  then obtain i where
    "g' = \<lparr> adjacency = (if \<not> map_has (adjacency g) i then map_set i [] (adjacency g)
                          else adjacency g),
            nodeData = map_set i (spread [(''id'', JStr i)] (stub a)) (nodeData g) \<rparr>"
    by (rule addNode_Inr)
  then show ?thesis using assms(2) by (simp add: map_has_iff map_get_map_set)
qed

lemma adj_set_succeeds:
  assumes "map_has (adjacency g) a"
  shows "\<exists>g'. adj_set a b w g = Inr g' \<and> (\<forall>x. map_has (adjacency g) x \<longrightarrow> map_has (adjacency g') x)"
proof -
  from assms obtain m where m: "map_get (adjacency g) a = Some m"
    by (auto simp: map_has_iff)
  then show ?thesis by (simp add: adj_set_def map_has_iff map_get_map_set)
qed

lemma addEdge_succeeds:
  assumes "a \<noteq> []" "b \<noteq> []"
  shows "\<exists>g'. addEdge a b w meta g = Inr g'"
proof -
  from ensure_node_succeeds [OF assms(1)] obtain g1 where
    s1: "ensure_node a g = Inr g1" and a1: "map_has (adjacency g1) a" by blast
  from ensure_node_succeeds [OF assms(2)] obtain g2 where
    s2: "ensure_node b g1 = Inr g2" and b2: "map_has (adjacency g2) b" by blast
  have a2: "map_has (adjacency g2) a" using s2 a1 by (rule ensure_node_keeps)
  from adj_set_succeeds [OF a2] obtain g3 where
    s3: "adj_set a b w g2 = Inr g3" and k3: "\<forall>x. map_has (adjacency g2) x \<longrightarrow> map_has (adjacency g3) x"
    by blast
  have "map_has (adjacency g3) b" using k3 b2 by blast
  from adj_set_succeeds [OF this] obtain g4 where s4: "adj_set b a w g3 = Inr g4" by blast
  show ?thesis by (simp add: addEdge_def then_do_def s1 s2 s3 s4)
qed

lemma credit_artist_succeeds:
  assumes "song_id song \<noteq> []" "a \<noteq> []"
  shows "\<exists>st'. credit_artist song st a = Inr st'"
proof -
  obtain g calls where st: "st = (g, calls)" by (cases st)
  have "\<exists>g1. (if \<not> map_has (nodeData g) a then addNode (artist_node a) g else Inr g) = Inr g1"
    using addNode_succeeds [of "artist_node a" a g] assms(2)
    by (simp add: artist_node_def get_prop_def map_get_def)
  then obtain g1 where
    s1: "(if \<not> map_has (nodeData g) a then addNode (artist_node a) g else Inr g) = Inr g1"
    by blast
  from addEdge_succeeds [OF assms] obtain g2 where
    s2: "addEdge (song_id song) a 1 (edge_meta song a) g1 = Inr g2" by blast
  show ?thesis by (simp add: st credit_artist_def then_do_def s1 s2)
qed

lemma credit_artists_succeed:
  "song_id song \<noteq> [] \<Longrightarrow> [] \<notin> set as \<Longrightarrow> \<exists>st'. for_each (credit_artist song) st as = Inr st'"
proof (induction as arbitrary: st)
  case Nil
  then show ?case by simp
next
  case (Cons a as)
  from Cons.prems have "a \<noteq> []" by auto
  from credit_artist_succeeds [OF Cons.prems(1) this] obtain st1 where
    s1: "credit_artist song st a = Inr st1" by blast
  from Cons.IH [of st1] Cons.prems obtain st' where
    "for_each (credit_artist song) st1 as = Inr st'" by auto
  then show ?case by (simp add: then_do_def s1)
qed

lemma add_song_succeeds:
  assumes "song_id song \<noteq> []" "[] \<notin> set (allCreditedArtists song)"
  shows "\<exists>st'. add_song st song = Inr st'"
proof -
  obtain g calls where st: "st = (g, calls)" by (cases st)
  have "get_prop (song_node song) ''id'' = JStr (song_id song)"
    by (simp add: song_node_def get_prop_def map_get_def)
  from addNode_succeeds [OF this assms(1)] obtain g1 where
    s1: "addNode (song_node song) g = Inr g1" by blast
  from credit_artists_succeed [OF assms] obtain st' where
    "for_each (credit_artist song) (g1, calls) (allCreditedArtists song) = Inr st'" by blast
  then show ?thesis by (simp add: st add_song_def then_do_def s1)
qed

lemma addSongCreditsToGraph_succeeds:
  assumes "\<forall>song \<in> set songs. song_id song \<noteq> [] \<and> [] \<notin> set (allCreditedArtists song)"
  shows "\<exists>g' calls. addSongCreditsToGraph g songs = Inr (g', calls)"
proof -
  have "\<exists>st'. for_each add_song st songs = Inr st'" for st
    using assms
  proof (induction songs arbitrary: st)
    case Nil
    then show ?case by simp
  next
    case (Cons song songs)
    from Cons.prems have "song_id song \<noteq> []" "[] \<notin> set (allCreditedArtists song)" by auto
    from add_song_succeeds [OF this] obtain st1 where s1: "add_song st song = Inr st1" by blast
    from Cons.IH [of st1] Cons.prems obtain st' where "for_each add_song st1 songs = Inr st'"
      by auto
    then show ?case by (simp add: then_do_def s1)
  qed
  then obtain st' where "for_each add_song (g, []) songs = Inr st'" by blast
  then show ?thesis
    by (cases st') (simp add: addSongCreditsToGraph_def then_do_def)
qed

subsection \<open>The labels\<close>




end
